theory Spec2Isabelle
  imports Complex_Main "HOL-Library.Word"
begin

section \<open>The Count-Min Sketch of cachelib/common/CountMinSketch.h\<close>

text \<open>
  The class template \<open>CountMinSketchBase<UINT>\<close> is modelled for an arbitrary counter
  width: \<open>UINT\<close> is \<open>'a word\<close> (\<open>uint8_t\<close>, \<open>uint16_t\<close> and \<open>uint32_t\<close> in the
  three aliases at the end of the header). The dimensions are \<open>uint32_t\<close>, the saturation
  counter and every table index are \<open>uint64_t\<close>; their arithmetic wraps as in C++.
\<close>

type_synonym u32 = "32 word"
type_synonym u64 = "64 word"

subsection \<open>State\<close>

text \<open>
  The data members \<open>width_\<close>, \<open>depth_\<close>, \<open>saturated\<close> and \<open>table_\<close> (a name cannot
  end in an underscore here, hence the suffix). \<open>table_m\<close> is the array owned by the
  \<open>unique_ptr\<close>: the list of its cells, empty for the null pointer of a
  default-constructed or moved-from object (in both cases no cell may be accessed).
\<close>

record 'c sketch =
  width_m :: u32
  depth_m :: u32
  saturated :: u64
  table_m :: "'c list"

text \<open>
  \<open>hashInt\<close> and \<open>combineHashes\<close> are declared in cachelib/common/Hash.h, which is not
  part of the sources at hand: they are parameters of the model (a 64-bit integer hash
  and a function combining two 64-bit hashes).
\<close>

record hash_fns =
  hashInt :: "u32 \<Rightarrow> u64"
  combineHashes :: "u64 \<Rightarrow> u64 \<Rightarrow> u64"

subsection \<open>Loops\<close>

text \<open>
  \<open>for (i = lo; i < n; i++) body\<close> over a state. The body returns \<open>None\<close> when
  it has no defined behaviour (an access outside the table, a remainder by zero), and
  the loop stops there. None of the loops of the header changes its bound, and the
  counter stays below the bound, so it never wraps.
\<close>

function for_loop :: "nat \<Rightarrow> nat \<Rightarrow> (nat \<Rightarrow> 's \<Rightarrow> 's option) \<Rightarrow> 's \<Rightarrow> 's option" where
  "for_loop i n body s =
     (if i < n
      then (case body i s of None \<Rightarrow> None | Some s' \<Rightarrow> for_loop (Suc i) n body s')
      else Some s)"
  by pat_completeness auto
termination
  by (relation "measure (\<lambda>(i, n, body, s). n - i)") auto

declare for_loop.simps [simp del]

subsection \<open>Operations\<close>

definition getMaxCount :: "'a::len word" where
  "getMaxCount = - 1"

text \<open>
  \<open>getIndex\<close>: the product \<open>hashNum * width_\<close> is a product of two \<open>uint32_t\<close> and
  wraps at 32 bits before it is widened; the remainder and the sum are 64-bit. The
  remainder by a zero width has no defined behaviour.
\<close>

definition getIndex :: "hash_fns \<Rightarrow> 'c sketch \<Rightarrow> u32 \<Rightarrow> u64 \<Rightarrow> u64 option" where
  "getIndex H s hashNum key =
     (if width_m s = 0 then None
      else
        let rowIndex = combineHashes H (hashInt H hashNum) key mod ucast (width_m s)
        in Some (ucast (hashNum * width_m s) + rowIndex))"

text \<open>One iteration of the loop of \<open>increment\<close>.\<close>

definition increment_row :: "hash_fns \<Rightarrow> u64 \<Rightarrow> nat \<Rightarrow> 'a::len word sketch \<Rightarrow> 'a word sketch option" where
  "increment_row H key hashNum s =
     (case getIndex H s (of_nat hashNum) key of
        None \<Rightarrow> None
      | Some index \<Rightarrow>
          if unat index < length (table_m s) then
            if table_m s ! unat index < getMaxCount then
              let s1 = s\<lparr>table_m := (table_m s)[unat index := table_m s ! unat index + 1]\<rparr>
              in if table_m s1 ! unat index = getMaxCount
                 then Some (s1\<lparr>saturated := saturated s1 + 1\<rparr>)
                 else Some s1
            else Some s
          else None)"

definition increment :: "hash_fns \<Rightarrow> 'a::len word sketch \<Rightarrow> u64 \<Rightarrow> 'a word sketch option" where
  "increment H s key = for_loop 0 (unat (depth_m s)) (increment_row H key) s"

text \<open>One iteration of the loop of \<open>getCount\<close>; the loop's state is \<open>count\<close>.\<close>

definition getCount_row :: "hash_fns \<Rightarrow> 'a::len word sketch \<Rightarrow> u64 \<Rightarrow> nat \<Rightarrow> 'a word \<Rightarrow> 'a word option" where
  "getCount_row H s key hashNum count =
     (case getIndex H s (of_nat hashNum) key of
        None \<Rightarrow> None
      | Some index \<Rightarrow>
          if unat index < length (table_m s)
          then Some (min count (table_m s ! unat index))
          else None)"

definition getCount :: "hash_fns \<Rightarrow> 'a::len word sketch \<Rightarrow> u64 \<Rightarrow> 'a word option" where
  "getCount H s key =
     (case for_loop 0 (unat (depth_m s)) (getCount_row H s key) getMaxCount of
        None \<Rightarrow> None
      | Some count \<Rightarrow> Some (count * (if depth_m s \<noteq> 0 then 1 else 0)))"

text \<open>One iteration of the loop of \<open>resetCount\<close>; the subtraction wraps.\<close>

definition resetCount_row :: "hash_fns \<Rightarrow> u64 \<Rightarrow> 'a::len word \<Rightarrow> nat \<Rightarrow> 'a word sketch \<Rightarrow> 'a word sketch option" where
  "resetCount_row H key count hashNum s =
     (case getIndex H s (of_nat hashNum) key of
        None \<Rightarrow> None
      | Some index \<Rightarrow>
          if unat index < length (table_m s)
          then Some (s\<lparr>table_m := (table_m s)[unat index := table_m s ! unat index - count]\<rparr>)
          else None)"

definition resetCount :: "hash_fns \<Rightarrow> 'a::len word sketch \<Rightarrow> u64 \<Rightarrow> 'a word sketch option" where
  "resetCount H s key =
     (case getCount H s key of
        None \<Rightarrow> None
      | Some count \<Rightarrow> for_loop 0 (unat (depth_m s)) (resetCount_row H key count) s)"

text \<open>
  \<open>reset\<close>: \<open>tableSize\<close> is the 32-bit product \<open>width_ * depth_\<close>, widened to 64 bits.
\<close>

definition tableSize :: "'c sketch \<Rightarrow> u64" where
  "tableSize s = ucast (width_m s * depth_m s)"

definition reset_cell :: "nat \<Rightarrow> 'a::len word sketch \<Rightarrow> 'a word sketch option" where
  "reset_cell i s =
     (if i < length (table_m s) then Some (s\<lparr>table_m := (table_m s)[i := 0]\<rparr>) else None)"

definition reset :: "'a::len word sketch \<Rightarrow> 'a word sketch option" where
  "reset s = for_loop 0 (unat (tableSize s)) reset_cell s"

definition getSaturatedCounts :: "'c sketch \<Rightarrow> u64" where
  "getSaturatedCounts s = saturated s"

subsection \<open>Doubles\<close>

text \<open>
  A \<open>double\<close> is a finite number, an infinity or a NaN. Comparisons are exact on
  doubles, and every comparison with a NaN is false. The arithmetic of doubles (the
  rounding of a quotient, a product or a logarithm) and the conversion of a double to an
  unsigned integer are kept out of the operations: the three expressions of the header
  that use them are parameters, \<open>None\<close> where the conversion has no defined result.
  The product of \<open>decayCountsBy\<close> is defined further down (\<open>scale_rounded\<close>), as a
  value of the third parameter.
  \<^item> \<open>ceil_two_over error\<close> is \<open>narrow_cast<uint32_t>(std::ceil(2 / error))\<close>;
  \<^item> \<open>ceil_abs_log2 probability\<close> is
    \<open>narrow_cast<uint32_t>(std::ceil(std::abs(std::log(1 - probability) / std::log(2))))\<close>;
  \<^item> \<open>scale c decay\<close> is \<open>narrow_cast<UINT>(c * decay)\<close> for a cell \<open>c\<close>.
\<close>

datatype double = Finite real | PlusInfinity | MinusInfinity | NaN

fun double_le :: "double \<Rightarrow> real \<Rightarrow> bool" where
  "double_le (Finite x) c = (x \<le> c)"
| "double_le MinusInfinity c = True"
| "double_le PlusInfinity c = False"
| "double_le NaN c = False"

fun double_ge :: "double \<Rightarrow> real \<Rightarrow> bool" where
  "double_ge (Finite x) c = (x \<ge> c)"
| "double_ge MinusInfinity c = False"
| "double_ge PlusInfinity c = True"
| "double_ge NaN c = False"

record 'c fp_ops =
  ceil_two_over :: "double \<Rightarrow> u32 option"
  ceil_abs_log2 :: "double \<Rightarrow> u32 option"
  scale :: "'c \<Rightarrow> double \<Rightarrow> 'c option"

definition decay_cell :: "'a::len word fp_ops \<Rightarrow> double \<Rightarrow> nat \<Rightarrow> 'a word sketch \<Rightarrow> 'a word sketch option" where
  "decay_cell fp decay i s =
     (if i < length (table_m s) then
        (case scale fp (table_m s ! i) decay of
           None \<Rightarrow> None
         | Some v \<Rightarrow> Some (s\<lparr>table_m := (table_m s)[i := v]\<rparr>))
      else None)"

definition decayCountsBy :: "'a::len word fp_ops \<Rightarrow> 'a word sketch \<Rightarrow> double \<Rightarrow> 'a word sketch option" where
  "decayCountsBy fp s decay = for_loop 0 (unat (tableSize s)) (decay_cell fp decay) s"

subsection \<open>Construction\<close>

text \<open>
  \<open>std::invalid_argument\<close> carries the name of the parameter and its value (the header
  formats both into the message). \<open>Undefined\<close> stands for an execution without
  defined behaviour.
\<close>

datatype argument = Width u32 | Depth u32 | Error double | Probability double

datatype failure = InvalidArgument argument | Undefined

text \<open>
  The constructor from dimensions. \<open>make_unique<UINT[]>(width_ * depth_)\<close> allocates
  as many zero cells as the 32-bit product says.
\<close>

definition CountMinSketchBase :: "u32 \<Rightarrow> u32 \<Rightarrow> failure + 'a::len word sketch" where
  "CountMinSketchBase width depth =
     (if width = 0 then Inl (InvalidArgument (Width width))
      else if depth = 0 then Inl (InvalidArgument (Depth depth))
      else
        case reset \<lparr>width_m = width, depth_m = depth, saturated = 0,
                     table_m = replicate (unat (width * depth)) 0\<rparr> of
          None \<Rightarrow> Inl Undefined
        | Some s \<Rightarrow> Inr s)"

definition calculateWidth :: "'c fp_ops \<Rightarrow> double \<Rightarrow> u32 \<Rightarrow> failure + u32" where
  "calculateWidth fp error maxWidth =
     (if double_le error 0 \<or> double_ge error 1 then Inl (InvalidArgument (Error error))
      else
        case ceil_two_over fp error of
          None \<Rightarrow> Inl Undefined
        | Some width \<Rightarrow> Inr (if maxWidth > 0 then min maxWidth width else width))"

definition calculateDepth :: "'c fp_ops \<Rightarrow> double \<Rightarrow> u32 \<Rightarrow> failure + u32" where
  "calculateDepth fp probability maxDepth =
     (if double_le probability 0 \<or> double_ge probability 1
      then Inl (InvalidArgument (Probability probability))
      else
        case ceil_abs_log2 fp probability of
          None \<Rightarrow> Inl Undefined
        | Some depth0 \<Rightarrow>
            let depth = max 1 depth0
            in Inr (if maxDepth > 0 then min maxDepth depth else depth))"

text \<open>
  The constructor from accuracy delegates to the one from dimensions; the braced
  initialiser evaluates \<open>calculateWidth\<close> before \<open>calculateDepth\<close>.
\<close>

definition CountMinSketchBase_accuracy ::
    "'a::len word fp_ops \<Rightarrow> double \<Rightarrow> double \<Rightarrow> u32 \<Rightarrow> u32 \<Rightarrow> failure + 'a word sketch" where
  "CountMinSketchBase_accuracy fp error probability maxWidth maxDepth =
     (case calculateWidth fp error maxWidth of
        Inl e \<Rightarrow> Inl e
      | Inr width \<Rightarrow>
          (case calculateDepth fp probability maxDepth of
             Inl e \<Rightarrow> Inl e
           | Inr depth \<Rightarrow> CountMinSketchBase width depth))"

text \<open>The defaulted constructor: the default member initialisers.\<close>

definition CountMinSketchBase_default :: "'a::len word sketch" where
  "CountMinSketchBase_default = \<lparr>width_m = 0, depth_m = 0, saturated = 0, table_m = []\<rparr>"

text \<open>
  The move constructor returns the new object and what is left of \<open>other\<close>. Its
  initialiser list names \<open>width_\<close>, \<open>depth_\<close> and \<open>table_\<close> only, so \<open>saturated\<close> of
  the new object is its default 0 and that of \<open>other\<close> stays.
\<close>

definition CountMinSketchBase_move :: "'a::len word sketch \<Rightarrow> 'a word sketch \<times> 'a word sketch" where
  "CountMinSketchBase_move other =
     (\<lparr>width_m = width_m other, depth_m = depth_m other, saturated = 0,
        table_m = table_m other\<rparr>,
      other\<lparr>width_m := 0, depth_m := 0, table_m := []\<rparr>)"

subsection \<open>Sequences of calls\<close>

datatype call = Increment u64 | GetCount u64 | ResetCount u64 | DecayCountsBy double | Reset

fun do_call :: "hash_fns \<Rightarrow> 'a::len word fp_ops \<Rightarrow> call \<Rightarrow> 'a word sketch \<Rightarrow> 'a word sketch option" where
  "do_call H fp (Increment key) s = increment H s key"
| "do_call H fp (GetCount key) s = (case getCount H s key of None \<Rightarrow> None | Some c \<Rightarrow> Some s)"
| "do_call H fp (ResetCount key) s = resetCount H s key"
| "do_call H fp (DecayCountsBy decay) s = decayCountsBy fp s decay"
| "do_call H fp Reset s = reset s"

fun run :: "hash_fns \<Rightarrow> 'a::len word fp_ops \<Rightarrow> call list \<Rightarrow> 'a word sketch \<Rightarrow> 'a word sketch option" where
  "run H fp [] s = Some s"
| "run H fp (c # cs) s = (case do_call H fp c s of None \<Rightarrow> None | Some s' \<Rightarrow> run H fp cs s')"

text \<open>A sequence of \<open>increment\<close> calls, one for each key of the list in turn.\<close>

fun increment_all :: "hash_fns \<Rightarrow> 'a::len word sketch \<Rightarrow> u64 list \<Rightarrow> 'a word sketch option" where
  "increment_all H s [] = Some s"
| "increment_all H s (key # keys) =
     (case increment H s key of None \<Rightarrow> None | Some s' \<Rightarrow> increment_all H s' keys)"

text \<open>
  A pair of hash functions to run the operations on: the row number widened, and the
  sum of the two hashes.
\<close>

definition H0 :: hash_fns where
  "H0 = \<lparr>hashInt = ucast, combineHashes = (+)\<rparr>"

text \<open>
  Floating-point operations none of which has a result, for the calls that use none.
\<close>

definition no_fp :: "'c fp_ops" where
  "no_fp = \<lparr>ceil_two_over = (\<lambda>_. None), ceil_abs_log2 = (\<lambda>_. None), scale = (\<lambda>_ _. None)\<rparr>"

text \<open>
  A second pair of hash functions, under which key 0 falls into column 2 of row 0 and
  into column 0 of rows 1 and 2, and key 1 into column 0 of row 1 and into column 5 of
  rows 0 and 2.
\<close>

definition H1 :: hash_fns where
  "H1 = \<lparr>hashInt = ucast,
          combineHashes = (\<lambda>h key. if key = 0 then (if h = 0 then 2 else 0)
                                     else (if h = 1 then 0 else 5))\<rparr>"

subsection \<open>The product of \<open>decayCountsBy\<close>\<close>

text \<open>
  \<open>table_[i] * decay\<close> is a product of doubles: the cell is converted to a double and
  the real product is rounded to a double. \<open>round_double\<close> is the rounding of IEEE 754
  binary64 in its default mode, to the nearest double, and to the one of even
  significand at a tie. A double is a multiple of its unit in the last place, which is
  \<open>2 ^ (e - 52)\<close> for a number \<open>x\<close> with \<open>2 ^ e \<le> \<bar>x\<bar> < 2 ^ (e + 1)\<close> and \<open>e\<close> at
  least \<open>- 1022\<close>, and \<open>2 ^ (- 1074)\<close> below. The exponent is not bounded above here:
  beyond the largest double the rounded product is an infinity, and
  \<open>round_double\<close> gives a number beyond the range of the counter types of the header;
  the conversion to a counter has no result for either.
\<close>

definition round_half_even :: "real \<Rightarrow> int" where
  "round_half_even x =
     (if x - of_int \<lfloor>x\<rfloor> < 1 / 2 then \<lfloor>x\<rfloor>
      else if 1 / 2 < x - of_int \<lfloor>x\<rfloor> then \<lfloor>x\<rfloor> + 1
      else if even \<lfloor>x\<rfloor> then \<lfloor>x\<rfloor> else \<lfloor>x\<rfloor> + 1)"

definition binade :: "real \<Rightarrow> int" where
  "binade x = max \<lfloor>log 2 x\<rfloor> (- 1022)"

definition ulp :: "real \<Rightarrow> real" where
  "ulp x = 2 powr of_int (binade x - 52)"

definition round_double :: "real \<Rightarrow> real" where
  "round_double x =
     (if x = 0 then 0
      else sgn x * (ulp \<bar>x\<bar> * of_int (round_half_even (\<bar>x\<bar> / ulp \<bar>x\<bar>))))"

text \<open>
  \<open>narrow_cast<UINT>(table_[i] * decay)\<close>, with the rounding of the doubles as \<open>rnd\<close>:
  a value of the parameter \<open>scale\<close>. \<open>narrow_cast\<close> (of \<open>cachelib/common/Utils.h\<close>,
  which is not part of the source) is taken as the unchecked conversion
  \<open>static_cast\<close>: from a double to an unsigned integer it discards the fractional part,
  and it has no defined result when the truncated value is outside the range of the
  type. An infinite or NaN \<open>decay\<close> makes the product an infinity or a NaN, for which
  the conversion has no defined result either.
\<close>

definition scale_rounded :: "(real \<Rightarrow> real) \<Rightarrow> 'a::len word \<Rightarrow> double \<Rightarrow> 'a word option" where
  "scale_rounded rnd c decay =
     (case decay of
        Finite d \<Rightarrow>
          (let v = rnd (rnd (real (unat c)) * d);
               t = (if 0 \<le> v then \<lfloor>v\<rfloor> else \<lceil>v\<rceil>)
           in if 0 \<le> t \<and> t < 2 ^ LENGTH('a) then Some (word_of_int t) else None)
      | PlusInfinity \<Rightarrow> None
      | MinusInfinity \<Rightarrow> None
      | NaN \<Rightarrow> None)"

subsection \<open>Predicates of the statements\<close>

text \<open>
  What every constructor establishes and every operation keeps: the table has the
  \<open>tableSize\<close> cells that were allocated (none behind the null pointer of a
  default-constructed or moved-from object, whose dimensions are 0).
\<close>

definition sized :: "'c sketch \<Rightarrow> bool" where
  "sized s \<longleftrightarrow> length (table_m s) = unat (tableSize s)"

text \<open>The open interval from 0 to 1 that the accuracy parameters must lie in.\<close>

fun in_open_unit :: "double \<Rightarrow> bool" where
  "in_open_unit (Finite x) = (0 < x \<and> x < 1)"
| "in_open_unit PlusInfinity = False"
| "in_open_unit MinusInfinity = False"
| "in_open_unit NaN = False"

text \<open>The calls that count: \<open>increment\<close> and \<open>getCount\<close>.\<close>

fun counting :: "call \<Rightarrow> bool" where
  "counting (Increment key) = True"
| "counting (GetCount key) = True"
| "counting (ResetCount key) = False"
| "counting (DecayCountsBy decay) = False"
| "counting Reset = False"

text \<open>
  The state the constructor from dimensions leaves when the product of the dimensions
  fits the 32 bits it is computed in: a table of \<open>width * depth\<close> cells. For larger
  products \<open>width_ * depth_\<close> wraps, the table is shorter than \<open>getIndex\<close> assumes and
  the header's accesses are not covered by the allocation.
\<close>

definition allocated :: "'c sketch \<Rightarrow> bool" where
  "allocated s \<longleftrightarrow>
     width_m s \<noteq> 0 \<and> depth_m s \<noteq> 0 \<and>
     unat (width_m s) * unat (depth_m s) < 2 ^ 32 \<and>
     length (table_m s) = unat (width_m s) * unat (depth_m s)"

text \<open>
  The index of section 4.2 of the specification, in natural numbers:
  \<open>rowIndex * width + (combineHashes(hashInt(rowIndex), key) mod width)\<close>.
\<close>

definition cell_index :: "hash_fns \<Rightarrow> 'c sketch \<Rightarrow> nat \<Rightarrow> u64 \<Rightarrow> nat" where
  "cell_index H s row key =
     row * unat (width_m s) +
     unat (combineHashes H (hashInt H (of_nat row)) key) mod unat (width_m s)"

text \<open>The number of cells that hold the maximum of the counter type.\<close>

definition saturatedCells :: "'a::len word sketch \<Rightarrow> nat" where
  "saturatedCells s = count_list (table_m s) getMaxCount"

section \<open>Auxiliary facts\<close>

subsection \<open>Loops\<close>

lemma for_loop_total:
  assumes "I i s" and "i \<le> n"
    and "\<And>j t. i \<le> j \<Longrightarrow> j < n \<Longrightarrow> I j t \<Longrightarrow> \<exists>t'. body j t = Some t' \<and> I (Suc j) t'"
  shows "\<exists>s'. for_loop i n body s = Some s' \<and> I n s'"
  using assms
proof (induction i n body s rule: for_loop.induct)
  case (1 i n body s)
  show ?case
  proof (cases "i < n")
    case True
    from 1(4)[OF le_refl True 1(2)] obtain t' where t': "body i s = Some t'" "I (Suc i) t'" by blast
    have "\<exists>s'. for_loop (Suc i) n body t' = Some s' \<and> I n s'"
      using 1(1)[OF True t'(1) t'(2)] True 1(4) by (simp add: Suc_le_eq)
    then show ?thesis using True t' by (subst for_loop.simps) simp
  next
    case False
    then have "i = n" using 1(3) by simp
    then show ?thesis using 1(2) by (subst for_loop.simps) simp
  qed
qed

lemma for_loop_partial:
  assumes "for_loop i n body s = Some s'" and "I i s" and "i \<le> n"
    and "\<And>j t t'. i \<le> j \<Longrightarrow> j < n \<Longrightarrow> I j t \<Longrightarrow> body j t = Some t' \<Longrightarrow> I (Suc j) t'"
  shows "I n s'"
  using assms
proof (induction i n body s rule: for_loop.induct)
  case (1 i n body s)
  show ?case
  proof (cases "i < n")
    case True
    from 1(2) True obtain t' where t': "body i s = Some t'" "for_loop (Suc i) n body t' = Some s'"
      by (subst (asm) for_loop.simps) (auto split: option.splits)
    have "I (Suc i) t'" using 1(5)[OF le_refl True 1(3) t'(1)] .
    then show ?thesis
      using 1(1)[OF True t'(1) t'(2)] True 1(5) by (simp add: Suc_le_eq)
  next
    case False
    then have "i = n" using 1(4) by simp
    moreover have "s' = s" using 1(2) False by (subst (asm) for_loop.simps) simp
    ultimately show ?thesis using 1(3) by simp
  qed
qed

lemma for_loop_empty: "for_loop i i body s = Some s"
  by (subst for_loop.simps) simp

subsection \<open>Index arithmetic\<close>

lemma unat_of_nat_row:
  assumes "r < unat (d :: u32)"
  shows "unat (of_nat r :: u32) = r"
proof -
  have "unat d < 2 ^ 32" using unsigned_less [of d, where 'a = nat] by simp
  then have "r < 2 ^ 32" using assms by simp
  then show ?thesis by (simp add: unat_of_nat take_bit_nat_eq_self)
qed

lemma unat_ucast_u32: "unat (ucast (x :: u32) :: u64) = unat x"
proof -
  have "unat x < 2 ^ 32" using unsigned_less [of x, where 'a = nat] by simp
  then have "unat x < 2 ^ 64" by simp
  then show ?thesis by (simp add: unsigned_ucast_eq take_bit_nat_eq_self)
qed

lemma unat_row_base:
  assumes "unat (w :: u32) * unat (d :: u32) < 2 ^ 32" and "r < unat d"
  shows "unat (ucast ((of_nat r :: u32) * w) :: u64) = r * unat w"
proof -
  have "r * unat w \<le> unat d * unat w" using assms(2) by (intro mult_le_mono1) simp
  also have "\<dots> = unat w * unat d" by (rule mult.commute)
  also have "\<dots> < 2 ^ 32" by (rule assms(1))
  finally have lt: "r * unat w < 2 ^ 32" .
  have "unat ((of_nat r :: u32) * w) = (r * unat w) mod 2 ^ 32"
    by (simp add: unat_word_ariths unat_of_nat_row [OF assms(2)])
  then have "unat ((of_nat r :: u32) * w) = r * unat w" using lt by simp
  then show ?thesis by (simp add: unat_ucast_u32)
qed

lemma getIndex_width_cong:
  "width_m t = width_m s \<Longrightarrow> getIndex H t hashNum key = getIndex H s hashNum key"
  by (simp add: getIndex_def)

lemma getIndex_allocated:
  assumes "allocated s" and "r < unat (depth_m s)"
  shows "\<exists>i. getIndex H s (of_nat r) key = Some i \<and> unat i = cell_index H s r key"
    and "cell_index H s r key < length (table_m s)"
proof -
  let ?w = "width_m s"
  let ?h = "combineHashes H (hashInt H (of_nat r)) key"
  from assms(1) have w: "?w \<noteq> 0" and fit: "unat ?w * unat (depth_m s) < 2 ^ 32"
    and len: "length (table_m s) = unat ?w * unat (depth_m s)"
    by (simp_all add: allocated_def)
  have base: "unat (ucast ((of_nat r :: u32) * ?w) :: u64) = r * unat ?w"
    using fit assms(2) by (rule unat_row_base)
  have col: "unat (?h mod ucast ?w) = unat ?h mod unat ?w"
    by (simp add: unat_mod unat_ucast_u32)
  have w0: "0 < unat ?w" using w by (simp add: unat_gt_0)
  have "unat ?h mod unat ?w < unat ?w" using w0 by simp
  then have "r * unat ?w + unat ?h mod unat ?w < Suc r * unat ?w" by simp
  also have "\<dots> \<le> unat (depth_m s) * unat ?w"
    using assms(2) by (intro mult_le_mono1) simp
  also have "\<dots> = unat ?w * unat (depth_m s)" by (rule mult.commute)
  finally have inside: "r * unat ?w + unat ?h mod unat ?w < unat ?w * unat (depth_m s)" .
  then show "cell_index H s r key < length (table_m s)"
    using len by (simp add: cell_index_def)
  from inside fit have "r * unat ?w + unat ?h mod unat ?w < 2 ^ 64" by simp
  then have "unat (ucast ((of_nat r :: u32) * ?w) + ?h mod ucast ?w :: u64)
               = r * unat ?w + unat ?h mod unat ?w"
    using base col by (simp add: unat_word_ariths)
  then show "\<exists>i. getIndex H s (of_nat r) key = Some i \<and> unat i = cell_index H s r key"
    using w by (simp add: getIndex_def Let_def cell_index_def)
qed

lemma cell_index_inj:
  assumes "width_m s \<noteq> 0" and "cell_index H s r key = cell_index H s r' key"
  shows "r = r'"
proof -
  let ?w = "unat (width_m s)"
  have w0: "0 < ?w" using assms(1) by (simp add: unat_gt_0)
  have "cell_index H s q key div ?w = q" for q
    using w0 by (simp add: cell_index_def)
  then show ?thesis using assms(2) by metis
qed

subsection \<open>\<open>getCount\<close>\<close>

lemma getCount_loop:
  assumes "for_loop 0 n (getCount_row H s key) getMaxCount = Some c"
  shows "(\<forall>r<n. \<exists>i. getIndex H s (of_nat r) key = Some i \<and> unat i < length (table_m s) \<and>
                     c \<le> table_m s ! unat i) \<and>
         (c = getMaxCount \<or>
          (\<exists>r<n. \<exists>i. getIndex H s (of_nat r) key = Some i \<and> c = table_m s ! unat i))"
proof -
  let ?I = "\<lambda>j c. (\<forall>r<j. \<exists>i. getIndex H s (of_nat r) key = Some i \<and> unat i < length (table_m s) \<and>
                     c \<le> table_m s ! unat i) \<and>
         (c = getMaxCount \<or>
          (\<exists>r<j. \<exists>i. getIndex H s (of_nat r) key = Some i \<and> c = table_m s ! unat i))"
  show ?thesis
  proof (rule for_loop_partial [where I = ?I, OF assms])
    show "?I 0 getMaxCount" by simp
    show "0 \<le> n" by simp
  next
    fix j t t'
    assume j: "j < n" and I: "?I j t" and b: "getCount_row H s key j t = Some t'"
    from b obtain i where i: "getIndex H s (of_nat j) key = Some i" "unat i < length (table_m s)"
      and t': "t' = min t (table_m s ! unat i)"
      by (auto simp: getCount_row_def split: option.splits if_splits)
    have le: "t' \<le> t" "t' \<le> table_m s ! unat i" using t' by simp_all
    have "\<exists>i. getIndex H s (of_nat r) key = Some i \<and> unat i < length (table_m s) \<and>
              t' \<le> table_m s ! unat i" if "r < Suc j" for r
    proof (cases "r = j")
      case True
      then show ?thesis using i le by blast
    next
      case False
      then have "r < j" using that by simp
      with I obtain i' where "getIndex H s (of_nat r) key = Some i'" "unat i' < length (table_m s)"
        "t \<le> table_m s ! unat i'" by blast
      then show ?thesis using le(1) by (meson order_trans)
    qed
    moreover have "t' = getMaxCount \<or>
          (\<exists>r<Suc j. \<exists>i. getIndex H s (of_nat r) key = Some i \<and> t' = table_m s ! unat i)"
    proof (cases "t' = t")
      case True
      then show ?thesis using I less_Suc_eq by auto
    next
      case False
      then have "t' = table_m s ! unat i" using t' by (simp add: min_def split: if_splits)
      then show ?thesis using i by blast
    qed
    ultimately show "?I (Suc j) t'" by blast
  qed
qed

lemma getCount_depth0: "depth_m s = 0 \<Longrightarrow> getCount H s key = Some 0"
  by (simp add: getCount_def for_loop_empty)

lemma getCount_Some:
  assumes "getCount H s key = Some c" and "depth_m s \<noteq> 0"
  shows "\<forall>r<unat (depth_m s). \<exists>i. getIndex H s (of_nat r) key = Some i \<and>
            unat i < length (table_m s) \<and> c \<le> table_m s ! unat i"
    and "\<exists>r<unat (depth_m s). \<exists>i. getIndex H s (of_nat r) key = Some i \<and>
            unat i < length (table_m s) \<and> c = table_m s ! unat i"
proof -
  let ?n = "unat (depth_m s)"
  from assms have loop: "for_loop 0 ?n (getCount_row H s key) getMaxCount = Some c"
    by (simp add: getCount_def split: option.splits)
  note L = getCount_loop [OF loop]
  from L show all: "\<forall>r<?n. \<exists>i. getIndex H s (of_nat r) key = Some i \<and>
            unat i < length (table_m s) \<and> c \<le> table_m s ! unat i" by blast
  have pos: "0 < ?n" using assms(2) by (simp add: unat_gt_0)
  from L have "c = getMaxCount \<or>
          (\<exists>r<?n. \<exists>i. getIndex H s (of_nat r) key = Some i \<and> c = table_m s ! unat i)" by blast
  then show "\<exists>r<?n. \<exists>i. getIndex H s (of_nat r) key = Some i \<and>
            unat i < length (table_m s) \<and> c = table_m s ! unat i"
  proof
    assume c: "c = getMaxCount"
    from all pos obtain i where i: "getIndex H s (of_nat 0) key = Some i"
      "unat i < length (table_m s)" "c \<le> table_m s ! unat i" by blast
    have "table_m s ! unat i \<le> c" unfolding c getMaxCount_def by simp
    with i(3) have "c = table_m s ! unat i" by simp
    with i pos show ?thesis by blast
  next
    assume "\<exists>r<?n. \<exists>i. getIndex H s (of_nat r) key = Some i \<and> c = table_m s ! unat i"
    then obtain r i where r: "r < ?n" "getIndex H s (of_nat r) key = Some i" "c = table_m s ! unat i"
      by blast
    from all r(1,2) have "unat i < length (table_m s)" by auto
    with r show ?thesis by blast
  qed
qed

lemma getCount_defined:
  assumes "\<forall>r<unat (depth_m s). \<exists>i. getIndex H s (of_nat r) key = Some i \<and>
            unat i < length (table_m s)"
  shows "\<exists>c. getCount H s key = Some c"
proof -
  have "\<exists>c. for_loop 0 (unat (depth_m s)) (getCount_row H s key) getMaxCount = Some c \<and> True"
  proof (rule for_loop_total [where I = "\<lambda>_ _. True"])
    fix j t assume "j < unat (depth_m s)"
    with assms obtain i where "getIndex H s (of_nat j) key = Some i" "unat i < length (table_m s)"
      by blast
    then show "\<exists>t'. getCount_row H s key j t = Some t' \<and> True"
      by (simp add: getCount_row_def)
  qed simp_all
  then show ?thesis by (auto simp: getCount_def)
qed

subsection \<open>\<open>increment\<close>\<close>

lemma word_below_max_Suc:
  fixes x :: "'a::len word"
  assumes "x < getMaxCount"
  shows "unat (x + 1) = Suc (unat x)"
proof -
  have "x \<noteq> - 1" using assms by (auto simp: getMaxCount_def)
  then have "1 + x \<noteq> 0" by (metis add.commute add_eq_0_iff)
  then show ?thesis using unatSuc [of x] by (simp add: add.commute)
qed

lemma increment_row_Some:
  assumes "increment_row H key j s = Some s'"
  shows "\<exists>i. getIndex H s (of_nat j) key = Some i \<and> unat i < length (table_m s) \<and>
    width_m s' = width_m s \<and> depth_m s' = depth_m s \<and>
    table_m s' = (if table_m s ! unat i < getMaxCount
                  then (table_m s)[unat i := table_m s ! unat i + 1] else table_m s) \<and>
    saturated s' = (if table_m s ! unat i < getMaxCount \<and> table_m s ! unat i + 1 = getMaxCount
                    then saturated s + 1 else saturated s)"
proof (cases "getIndex H s (of_nat j) key")
  case None
  then show ?thesis using assms by (simp add: increment_row_def)
next
  case (Some i)
  show ?thesis
  proof (cases "unat i < length (table_m s)")
    case False
    then show ?thesis using assms Some by (simp add: increment_row_def)
  next
    case inside: True
    show ?thesis
    proof (cases "table_m s ! unat i < getMaxCount")
      case False
      then have "s' = s" using assms Some inside by (simp add: increment_row_def)
      then show ?thesis using Some inside False by simp
    next
      case below: True
      show ?thesis
      proof (cases "table_m s ! unat i + 1 = getMaxCount")
        case True
        then have "s' = s\<lparr>table_m := (table_m s)[unat i := table_m s ! unat i + 1],
                          saturated := saturated s + 1\<rparr>"
          using assms Some inside below by (simp add: increment_row_def Let_def)
        then show ?thesis using Some inside below True by simp
      next
        case False
        then have "s' = s\<lparr>table_m := (table_m s)[unat i := table_m s ! unat i + 1]\<rparr>"
          using assms Some inside below by (simp add: increment_row_def Let_def)
        then show ?thesis using Some inside below False by simp
      qed
    qed
  qed
qed

lemma count_list_update:
  assumes "i < length xs" and "xs ! i \<noteq> a"
  shows "count_list (xs[i := v]) a = count_list xs a + (if v = a then 1 else 0)"
  using assms
proof (induction xs arbitrary: i)
  case Nil
  then show ?case by simp
next
  case (Cons x xs)
  then show ?case by (cases i) auto
qed

lemma count_list_room:
  assumes "i < length xs" and "xs ! i \<noteq> a"
  shows "count_list xs a < length xs"
proof -
  have "count_list (xs[i := a]) a = count_list xs a + 1"
    using count_list_update [OF assms, of a] by simp
  moreover have "count_list (xs[i := a]) a \<le> length (xs[i := a])" by (rule count_le_length)
  ultimately show ?thesis by simp
qed

lemma increment_row_mono:
  assumes "increment_row H key j t = Some t'" and "i < length (table_m t)"
  shows "table_m t ! i \<le> table_m t' ! i"
proof -
  from increment_row_Some [OF assms(1)] obtain k :: u64 where k: "unat k < length (table_m t)"
    and tab: "table_m t' = (if table_m t ! unat k < getMaxCount
                       then (table_m t)[unat k := table_m t ! unat k + 1] else table_m t)"
    by blast
  show ?thesis
  proof (cases "table_m t ! unat k < getMaxCount \<and> i = unat k")
    case True
    then have "unat (table_m t ! i + 1) = Suc (unat (table_m t ! i))"
      by (simp add: word_below_max_Suc)
    then have "table_m t ! i \<le> table_m t ! i + 1" by (simp add: word_le_nat_alt)
    then show ?thesis using True tab assms(2) by simp
  next
    case False
    then show ?thesis using tab by (auto simp: nth_list_update)
  qed
qed

lemma increment_row_hit:
  assumes "increment_row H key j t = Some t'" and "getIndex H t (of_nat j) key = Some i"
  shows "table_m t' ! unat i = getMaxCount \<or>
         unat (table_m t ! unat i) < unat (table_m t' ! unat i)"
proof -
  from increment_row_Some [OF assms(1)] assms(2) have "unat i < length (table_m t)"
    and tab: "table_m t' = (if table_m t ! unat i < getMaxCount
                       then (table_m t)[unat i := table_m t ! unat i + 1] else table_m t)"
    by auto
  show ?thesis
  proof (cases "table_m t ! unat i < getMaxCount")
    case True
    then show ?thesis using tab \<open>unat i < length (table_m t)\<close>
      by (simp add: word_below_max_Suc)
  next
    case False
    then have "table_m t ! unat i = getMaxCount"
      using word_order.extremum [of "table_m t ! unat i"]
      by (auto simp: getMaxCount_def order_le_less)
    then show ?thesis using tab by simp
  qed
qed

lemma increment_row_saturated:
  assumes "increment_row H key j t = Some t'" and "length (table_m t) < 2 ^ 64"
    and "unat (saturated t) = saturatedCells t"
  shows "unat (saturated t') = saturatedCells t'"
proof -
  from increment_row_Some [OF assms(1)] obtain i :: u64 where i: "unat i < length (table_m t)"
    and tab: "table_m t' = (if table_m t ! unat i < getMaxCount
                       then (table_m t)[unat i := table_m t ! unat i + 1] else table_m t)"
    and sat: "saturated t' = (if table_m t ! unat i < getMaxCount \<and> table_m t ! unat i + 1 = getMaxCount
                         then saturated t + 1 else saturated t)"
    by blast
  show ?thesis
  proof (cases "table_m t ! unat i < getMaxCount")
    case False
    then show ?thesis using tab sat assms(3) by (simp add: saturatedCells_def)
  next
    case True
    then have ne: "table_m t ! unat i \<noteq> getMaxCount" by simp
    have cells: "saturatedCells t' =
        saturatedCells t + (if table_m t ! unat i + 1 = getMaxCount then 1 else 0)"
      using True tab count_list_update [OF i ne] by (simp add: saturatedCells_def)
    show ?thesis
    proof (cases "table_m t ! unat i + 1 = getMaxCount")
      case False
      then show ?thesis using cells sat assms(3) by simp
    next
      case eq: True
      have "saturatedCells t < length (table_m t)"
        unfolding saturatedCells_def using i ne by (rule count_list_room)
      then have "unat (saturated t) + unat (1 :: u64) < 2 ^ 64"
        using assms(2,3) by simp
      then have "unat (saturated t + 1) = unat (saturated t) + 1"
        using unat_add_lem [of "saturated t" 1] by simp
      then show ?thesis using cells sat eq True assms(3) by simp
    qed
  qed
qed

text \<open>What one call of \<open>increment\<close> does, by the invariant of its loop.\<close>

lemma increment_Some:
  assumes "increment H s key = Some s'"
  shows "width_m s' = width_m s" and "depth_m s' = depth_m s"
    and "length (table_m s') = length (table_m s)"
    and "\<forall>i<length (table_m s). table_m s ! i \<le> table_m s' ! i"
    and "\<forall>r<unat (depth_m s). \<exists>i. getIndex H s (of_nat r) key = Some i \<and>
           unat i < length (table_m s) \<and>
           (table_m s' ! unat i = getMaxCount \<or>
            unat (table_m s ! unat i) < unat (table_m s' ! unat i))"
    and "length (table_m s) < 2 ^ 64 \<Longrightarrow> unat (saturated s) = saturatedCells s \<Longrightarrow>
           unat (saturated s') = saturatedCells s'"
proof -
  let ?n = "unat (depth_m s)"
  let ?I = "\<lambda>j t. width_m t = width_m s \<and> depth_m t = depth_m s \<and>
      length (table_m t) = length (table_m s) \<and>
      (\<forall>i<length (table_m s). table_m s ! i \<le> table_m t ! i) \<and>
      (\<forall>r<j. \<exists>i. getIndex H s (of_nat r) key = Some i \<and> unat i < length (table_m s) \<and>
           (table_m t ! unat i = getMaxCount \<or>
            unat (table_m s ! unat i) < unat (table_m t ! unat i))) \<and>
      (length (table_m s) < 2 ^ 64 \<longrightarrow> unat (saturated s) = saturatedCells s \<longrightarrow>
           unat (saturated t) = saturatedCells t)"
  from assms have loop: "for_loop 0 ?n (increment_row H key) s = Some s'"
    by (simp add: increment_def)
  have "?I ?n s'"
  proof (rule for_loop_partial [where I = ?I, OF loop])
    show "?I 0 s" by simp
    show "0 \<le> ?n" by simp
  next
    fix j t t'
    assume I: "?I j t" and b: "increment_row H key j t = Some t'"
    from I have w: "width_m t = width_m s" and len: "length (table_m t) = length (table_m s)"
      by simp_all
    from increment_row_Some [OF b] obtain k where
      k: "getIndex H t (of_nat j) key = Some k" "unat k < length (table_m t)"
      and fr: "width_m t' = width_m t" "depth_m t' = depth_m t"
      and tab: "table_m t' = (if table_m t ! unat k < getMaxCount
                  then (table_m t)[unat k := table_m t ! unat k + 1] else table_m t)"
      by blast
    have len': "length (table_m t') = length (table_m t)" using tab by simp
    have mono: "table_m t ! i \<le> table_m t' ! i" if "i < length (table_m s)" for i
      using increment_row_mono [OF b] that len by simp
    have ks: "getIndex H s (of_nat j) key = Some k"
      using k(1) getIndex_width_cong [OF w] by simp
    have A: "\<forall>i<length (table_m s). table_m s ! i \<le> table_m t' ! i"
      using I mono by (meson order_trans)
    have B: "\<exists>i. getIndex H s (of_nat r) key = Some i \<and> unat i < length (table_m s) \<and>
           (table_m t' ! unat i = getMaxCount \<or>
            unat (table_m s ! unat i) < unat (table_m t' ! unat i))" if "r < Suc j" for r
    proof (cases "r = j")
      case True
      have st: "unat (table_m s ! unat k) \<le> unat (table_m t ! unat k)"
        using I k(2) len by (simp add: word_le_nat_alt)
      from increment_row_hit [OF b k(1)] st
      have "table_m t' ! unat k = getMaxCount \<or>
            unat (table_m s ! unat k) < unat (table_m t' ! unat k)" by auto
      then show ?thesis using True ks k(2) len by auto
    next
      case False
      then have "r < j" using that by simp
      with I obtain i where i: "getIndex H s (of_nat r) key = Some i" "unat i < length (table_m s)"
        "table_m t ! unat i = getMaxCount \<or>
            unat (table_m s ! unat i) < unat (table_m t ! unat i)" by blast
      have m: "table_m t ! unat i \<le> table_m t' ! unat i" using mono i(2) by simp
      from i(3) have "table_m t' ! unat i = getMaxCount \<or>
            unat (table_m s ! unat i) < unat (table_m t' ! unat i)"
      proof
        assume "table_m t ! unat i = getMaxCount"
        then have "table_m t' ! unat i = getMaxCount"
          using m by (simp add: getMaxCount_def word_order.extremum_unique)
        then show ?thesis ..
      next
        assume "unat (table_m s ! unat i) < unat (table_m t ! unat i)"
        then show ?thesis using m by (simp add: word_le_nat_alt)
      qed
      then show ?thesis using i by blast
    qed
    have C: "length (table_m s) < 2 ^ 64 \<longrightarrow> unat (saturated s) = saturatedCells s \<longrightarrow>
           unat (saturated t') = saturatedCells t'"
      using increment_row_saturated [OF b] I len by simp
    show "?I (Suc j) t'"
      using fr len' I A B C by simp
  qed
  then show "width_m s' = width_m s" and "depth_m s' = depth_m s"
    and "length (table_m s') = length (table_m s)"
    and "\<forall>i<length (table_m s). table_m s ! i \<le> table_m s' ! i"
    and "\<forall>r<unat (depth_m s). \<exists>i. getIndex H s (of_nat r) key = Some i \<and>
           unat i < length (table_m s) \<and>
           (table_m s' ! unat i = getMaxCount \<or>
            unat (table_m s ! unat i) < unat (table_m s' ! unat i))"
    and "length (table_m s) < 2 ^ 64 \<Longrightarrow> unat (saturated s) = saturatedCells s \<Longrightarrow>
           unat (saturated s') = saturatedCells s'"
    by simp_all
qed

lemma increment_defined:
  fixes s :: "'a::len word sketch"
  assumes "\<forall>r<unat (depth_m s). \<exists>i. getIndex H s (of_nat r) key = Some i \<and>
            unat i < length (table_m s)"
  shows "\<exists>s'. increment H s key = Some s'"
proof -
  let ?n = "unat (depth_m s)"
  let ?I = "\<lambda>(j::nat) (t::'a word sketch).
      width_m t = width_m s \<and> length (table_m t) = length (table_m s)"
  have "\<exists>s'. for_loop 0 ?n (increment_row H key) s = Some s' \<and> ?I ?n s'"
  proof (rule for_loop_total [where I = ?I])
    fix j t assume j: "j < ?n" and I: "?I j t"
    with assms obtain i where i: "getIndex H s (of_nat j) key = Some i" "unat i < length (table_m s)"
      by blast
    have gi: "getIndex H t (of_nat j) key = Some i"
      using i(1) I getIndex_width_cong [of t s] by simp
    have "\<exists>t'. increment_row H key j t = Some t'"
      using gi i(2) I by (simp add: increment_row_def Let_def)
    then obtain t' where t': "increment_row H key j t = Some t'" ..
    from increment_row_Some [OF t'] have "?I (Suc j) t'" using I by auto
    with t' show "\<exists>t'. increment_row H key j t = Some t' \<and> ?I (Suc j) t'" by blast
  qed simp_all
  then show ?thesis by (auto simp: increment_def)
qed

subsection \<open>\<open>reset\<close> and the constructor\<close>

lemma unat_tableSize: "unat (tableSize s) = unat (width_m s * depth_m s)"
  by (simp add: tableSize_def unat_ucast_u32)

lemma zero_next_cell:
  assumes "j < length xs"
  shows "(replicate j a @ drop j xs)[j := a] = replicate (Suc j) a @ drop (Suc j) xs"
proof -
  have d: "drop j xs = xs ! j # drop (Suc j) xs"
    using assms by (simp add: Cons_nth_drop_Suc)
  have "(replicate j a @ drop j xs)[j := a] = replicate j a @ (drop j xs)[0 := a]"
    by (simp add: list_update_append)
  also have "\<dots> = replicate j a @ a # drop (Suc j) xs"
    by (simp add: d)
  also have "\<dots> = replicate (Suc j) a @ drop (Suc j) xs"
    by (simp add: replicate_append_same)
  finally show ?thesis .
qed

lemma reset_Some:
  fixes s :: "'a::len word sketch"
  assumes "unat (tableSize s) \<le> length (table_m s)"
  shows "reset s = Some (s\<lparr>table_m := replicate (unat (tableSize s)) 0 @
                                        drop (unat (tableSize s)) (table_m s)\<rparr>)"
proof -
  let ?n = "unat (tableSize s)"
  let ?I = "\<lambda>j (t::'a word sketch). t = s\<lparr>table_m := replicate j 0 @ drop j (table_m s)\<rparr>"
  have "\<exists>s'. for_loop 0 ?n reset_cell s = Some s' \<and> ?I ?n s'"
  proof (rule for_loop_total [where I = ?I])
    show "?I 0 s" by simp
    show "0 \<le> ?n" by simp
  next
    fix j t assume j: "j < ?n" and I: "?I j t"
    have jl: "j < length (table_m s)" using j assms by simp
    then have "reset_cell j t = Some (s\<lparr>table_m := replicate (Suc j) 0 @ drop (Suc j) (table_m s)\<rparr>)"
      using I zero_next_cell [OF jl, of 0] by (simp add: reset_cell_def)
    then show "\<exists>t'. reset_cell j t = Some t' \<and> ?I (Suc j) t'" by simp
  qed
  then show ?thesis by (simp add: reset_def)
qed

lemma reset_sized:
  fixes s :: "'a::len word sketch"
  assumes "length (table_m s) = unat (width_m s * depth_m s)"
  shows "reset s = Some (s\<lparr>table_m := replicate (length (table_m s)) 0\<rparr>)"
  using reset_Some [of s] assms by (simp add: unat_tableSize)

lemma CountMinSketchBase_eq:
  "(CountMinSketchBase width depth :: failure + 'a::len word sketch) =
     (if width = 0 then Inl (InvalidArgument (Width width))
      else if depth = 0 then Inl (InvalidArgument (Depth depth))
      else Inr \<lparr>width_m = width, depth_m = depth, saturated = 0,
                 table_m = replicate (unat (width * depth)) 0\<rparr>)"
proof -
  let ?s = "\<lparr>width_m = width, depth_m = depth, saturated = 0,
              table_m = replicate (unat (width * depth)) (0 :: 'a word)\<rparr>"
  have "reset ?s = Some ?s" using reset_sized [of ?s] by simp
  then show ?thesis by (simp add: CountMinSketchBase_def)
qed

lemma CountMinSketchBase_allocated:
  assumes "CountMinSketchBase width depth = Inr s" and "unat width * unat depth < 2 ^ 32"
  shows "allocated s"
proof -
  have "unat (width * depth) = unat width * unat depth"
    using assms(2) unat_mult_lem [of width depth] by simp
  then show ?thesis
    using assms by (auto simp: CountMinSketchBase_eq allocated_def split: if_splits)
qed

subsection \<open>Sequences of \<open>increment\<close>\<close>

lemma increment_allocated:
  fixes s :: "'a::len word sketch"
  assumes "allocated s"
  shows "\<exists>s'. increment H s key = Some s' \<and> allocated s'"
proof -
  have "\<forall>r<unat (depth_m s). \<exists>i. getIndex H s (of_nat r) key = Some i \<and>
            unat i < length (table_m s)"
    using getIndex_allocated [OF assms] by metis
  then obtain s' where s': "increment H s key = Some s'"
    using increment_defined by blast
  from increment_Some(1-3) [OF s'] assms have "allocated s'"
    by (simp add: allocated_def)
  with s' show ?thesis by blast
qed

lemma increment_all_allocated:
  fixes s :: "'a::len word sketch"
  assumes "allocated s"
  shows "\<exists>s'. increment_all H s keys = Some s' \<and> allocated s'"
  using assms
proof (induction keys arbitrary: s)
  case Nil
  then show ?case by simp
next
  case (Cons k keys)
  from increment_allocated [OF Cons.prems] obtain s1
    where "increment H s k = Some s1" "allocated s1" by blast
  then show ?case using Cons.IH [of s1] by simp
qed

lemma getCount_allocated:
  fixes s :: "'a::len word sketch"
  assumes "allocated s"
  shows "\<exists>c. getCount H s key = Some c"
proof (rule getCount_defined)
  show "\<forall>r<unat (depth_m s). \<exists>i. getIndex H s (of_nat r) key = Some i \<and>
            unat i < length (table_m s)"
    using getIndex_allocated [OF assms] by metis
qed

lemma max_absorbs:
  fixes x :: "'a::len word"
  assumes "x = getMaxCount" and "x \<le> y"
  shows "y = getMaxCount"
  using assms by (simp add: getMaxCount_def word_order.extremum_unique)

lemma increment_all_count:
  fixes s :: "'a::len word sketch"
  assumes "increment_all H s keys = Some s'"
  shows "width_m s' = width_m s \<and> depth_m s' = depth_m s \<and>
         length (table_m s') = length (table_m s) \<and>
         (\<forall>i<length (table_m s). table_m s ! i \<le> table_m s' ! i) \<and>
         (\<forall>r<unat (depth_m s). \<forall>i. getIndex H s (of_nat r) key = Some i \<longrightarrow>
              unat i < length (table_m s) \<longrightarrow>
              table_m s' ! unat i = getMaxCount \<or>
              unat (table_m s ! unat i) + count_list keys key \<le> unat (table_m s' ! unat i))"
  using assms
proof (induction keys arbitrary: s)
  case Nil
  then show ?case by simp
next
  case (Cons k keys)
  from Cons.prems obtain s1 where s1: "increment H s k = Some s1"
    and rest: "increment_all H s1 keys = Some s'"
    by (auto split: option.splits)
  note F = increment_Some [OF s1]
  note IH = Cons.IH [OF rest]
  have mono: "\<forall>i<length (table_m s). table_m s ! i \<le> table_m s' ! i"
    using F(3,4) IH by (metis order_trans)
  have cells: "table_m s' ! unat i = getMaxCount \<or>
        unat (table_m s ! unat i) + count_list (k # keys) key \<le> unat (table_m s' ! unat i)"
    if r: "r < unat (depth_m s)" and gi: "getIndex H s (of_nat r) key = Some i"
      and il: "unat i < length (table_m s)" for r i
  proof -
    have gi1: "getIndex H s1 (of_nat r) key = Some i"
      using gi getIndex_width_cong [OF F(1)] by simp
    from IH r gi1 il F(2,3)
    have after: "table_m s' ! unat i = getMaxCount \<or>
        unat (table_m s1 ! unat i) + count_list keys key \<le> unat (table_m s' ! unat i)"
      by simp
    have m1: "table_m s1 ! unat i \<le> table_m s' ! unat i" using IH il F(3) by simp
    have m0: "unat (table_m s ! unat i) \<le> unat (table_m s1 ! unat i)"
      using F(4) il by (simp add: word_le_nat_alt)
    show ?thesis
    proof (cases "k = key")
      case False
      then show ?thesis using after m0 by auto
    next
      case True
      from F(5) r gi True
      have "table_m s1 ! unat i = getMaxCount \<or>
            unat (table_m s ! unat i) < unat (table_m s1 ! unat i)" by auto
      then show ?thesis
      proof
        assume "table_m s1 ! unat i = getMaxCount"
        then have "table_m s' ! unat i = getMaxCount" using m1 by (rule max_absorbs)
        then show ?thesis ..
      next
        assume "unat (table_m s ! unat i) < unat (table_m s1 ! unat i)"
        then show ?thesis using after True by auto
      qed
    qed
  qed
  show ?case using F(1-3) IH mono cells by simp
qed

subsection \<open>\<open>resetCount\<close> and what the calls leave\<close>

lemma resetCount_row_Some:
  assumes "resetCount_row H key c j t = Some t'"
  shows "\<exists>i. getIndex H t (of_nat j) key = Some i \<and> unat i < length (table_m t) \<and>
           t' = t\<lparr>table_m := (table_m t)[unat i := table_m t ! unat i - c]\<rparr>"
  using assms by (auto simp: resetCount_row_def split: option.splits if_splits)

lemma resetCount_loop_allocated:
  fixes s :: "'a::len word sketch"
  assumes a: "allocated s"
  shows "\<exists>s'. for_loop 0 (unat (depth_m s)) (resetCount_row H key c) s = Some s' \<and>
           width_m s' = width_m s \<and> depth_m s' = depth_m s \<and> saturated s' = saturated s \<and>
           length (table_m s') = length (table_m s) \<and>
           (\<forall>i<length (table_m s). table_m s' ! i =
              (if \<exists>r<unat (depth_m s). i = cell_index H s r key
               then table_m s ! i - c else table_m s ! i))"
proof -
  let ?n = "unat (depth_m s)"
  let ?I = "\<lambda>j (t::'a word sketch).
      width_m t = width_m s \<and> depth_m t = depth_m s \<and> saturated t = saturated s \<and>
      length (table_m t) = length (table_m s) \<and>
      (\<forall>i<length (table_m s). table_m t ! i =
          (if \<exists>r<j. i = cell_index H s r key then table_m s ! i - c else table_m s ! i))"
  from a have w: "width_m s \<noteq> 0" by (simp add: allocated_def)
  show ?thesis
  proof (rule for_loop_total [where I = ?I])
    show "?I 0 s" by simp
    show "0 \<le> ?n" by simp
  next
    fix j t assume j: "j < ?n" and I: "?I j t"
    let ?k = "cell_index H s j key"
    from getIndex_allocated [OF a j, of H key] obtain i
      where i: "getIndex H s (of_nat j) key = Some i" "unat i = ?k" "?k < length (table_m s)"
      by blast
    have gi: "getIndex H t (of_nat j) key = Some i"
      using i(1) I getIndex_width_cong [of t s] by simp
    let ?t' = "t\<lparr>table_m := (table_m t)[?k := table_m t ! ?k - c]\<rparr>"
    have step: "resetCount_row H key c j t = Some ?t'"
      using gi i(2,3) I by (simp add: resetCount_row_def)
    have fresh: "\<not> (\<exists>r<j. ?k = cell_index H s r key)"
      using cell_index_inj [OF w] by (metis less_irrefl)
    have cells: "table_m ?t' ! x =
          (if \<exists>r<Suc j. x = cell_index H s r key then table_m s ! x - c else table_m s ! x)"
      if x: "x < length (table_m s)" for x
    proof (cases "x = ?k")
      case True
      from I i(3) have "table_m t ! ?k =
          (if \<exists>r<j. ?k = cell_index H s r key then table_m s ! ?k - c else table_m s ! ?k)"
        by blast
      then have "table_m t ! ?k = table_m s ! ?k" using fresh by (simp only: if_False)
      moreover have "\<exists>r<Suc j. x = cell_index H s r key" using True by blast
      ultimately show ?thesis using True I i(3) by simp
    next
      case False
      then have "(\<exists>r<Suc j. x = cell_index H s r key) \<longleftrightarrow> (\<exists>r<j. x = cell_index H s r key)"
        by (auto simp: less_Suc_eq)
      then show ?thesis using False I x by simp
    qed
    have "?I (Suc j) ?t'" using I cells by simp
    with step show "\<exists>t'. resetCount_row H key c j t = Some t' \<and> ?I (Suc j) t'" by blast
  qed
qed

lemma resetCount_allocated:
  fixes s :: "'a::len word sketch"
  assumes a: "allocated s"
  shows "\<exists>c s'. getCount H s key = Some c \<and> resetCount H s key = Some s' \<and>
           width_m s' = width_m s \<and> depth_m s' = depth_m s \<and> saturated s' = saturated s \<and>
           length (table_m s') = length (table_m s) \<and>
           (\<forall>i<length (table_m s). table_m s' ! i =
              (if \<exists>r<unat (depth_m s). i = cell_index H s r key
               then table_m s ! i - c else table_m s ! i))"
proof -
  from getCount_allocated [OF a] obtain c where c: "getCount H s key = Some c" by blast
  from resetCount_loop_allocated [OF a, of H key c] c show ?thesis
    by (auto simp: resetCount_def)
qed

text \<open>What every call leaves as it is, whether or not the sketch is \<open>allocated\<close>.\<close>

lemma resetCount_frame:
  fixes s :: "'a::len word sketch"
  assumes "resetCount H s key = Some s'"
  shows "width_m s' = width_m s \<and> depth_m s' = depth_m s \<and> saturated s' = saturated s \<and>
         length (table_m s') = length (table_m s)"
proof -
  from assms obtain c where
    loop: "for_loop 0 (unat (depth_m s)) (resetCount_row H key c) s = Some s'"
    by (auto simp: resetCount_def split: option.splits)
  let ?I = "\<lambda>(j::nat) (t::'a word sketch).
      width_m t = width_m s \<and> depth_m t = depth_m s \<and> saturated t = saturated s \<and>
      length (table_m t) = length (table_m s)"
  show ?thesis
  proof (rule for_loop_partial [where I = ?I, OF loop])
    fix j t t' assume "?I j t" and "resetCount_row H key c j t = Some t'"
    then show "?I (Suc j) t'" using resetCount_row_Some [of H key c j t t'] by auto
  qed simp_all
qed

lemma reset_frame:
  fixes s :: "'a::len word sketch"
  assumes "reset s = Some s'"
  shows "width_m s' = width_m s \<and> depth_m s' = depth_m s \<and> saturated s' = saturated s \<and>
         length (table_m s') = length (table_m s)"
proof -
  let ?I = "\<lambda>(j::nat) (t::'a word sketch).
      width_m t = width_m s \<and> depth_m t = depth_m s \<and> saturated t = saturated s \<and>
      length (table_m t) = length (table_m s)"
  from assms have loop: "for_loop 0 (unat (tableSize s)) reset_cell s = Some s'"
    by (simp add: reset_def)
  show ?thesis
  proof (rule for_loop_partial [where I = ?I, OF loop])
    fix j t t' assume "?I j t" and "reset_cell j t = Some t'"
    then show "?I (Suc j) t'" by (auto simp: reset_cell_def split: if_splits)
  qed simp_all
qed

lemma decayCountsBy_frame:
  fixes s :: "'a::len word sketch"
  assumes "decayCountsBy fp s decay = Some s'"
  shows "width_m s' = width_m s \<and> depth_m s' = depth_m s \<and> saturated s' = saturated s \<and>
         length (table_m s') = length (table_m s)"
proof -
  let ?I = "\<lambda>(j::nat) (t::'a word sketch).
      width_m t = width_m s \<and> depth_m t = depth_m s \<and> saturated t = saturated s \<and>
      length (table_m t) = length (table_m s)"
  from assms have loop: "for_loop 0 (unat (tableSize s)) (decay_cell fp decay) s = Some s'"
    by (simp add: decayCountsBy_def)
  show ?thesis
  proof (rule for_loop_partial [where I = ?I, OF loop])
    fix j t t' assume "?I j t" and "decay_cell fp decay j t = Some t'"
    then show "?I (Suc j) t'" by (auto simp: decay_cell_def split: if_splits option.splits)
  qed simp_all
qed

subsection \<open>A sketch without rows\<close>

lemma no_rows:
  fixes s :: "'a::len word sketch"
  assumes "depth_m s = 0"
  shows "increment H s key = Some s" and "getCount H s key = Some 0"
    and "resetCount H s key = Some s" and "decayCountsBy fp s decay = Some s"
    and "reset s = Some s"
    and "for_loop 0 (unat (depth_m s)) (getCount_row H s key) getMaxCount = Some getMaxCount"
proof -
  have ts: "unat (tableSize s) = 0" using assms by (simp add: unat_tableSize)
  show "increment H s key = Some s" using assms by (simp add: increment_def for_loop_empty)
  show c: "getCount H s key = Some 0" using assms by (rule getCount_depth0)
  show "resetCount H s key = Some s" using assms c by (simp add: resetCount_def for_loop_empty)
  show "decayCountsBy fp s decay = Some s" using ts by (simp add: decayCountsBy_def for_loop_empty)
  show "reset s = Some s" using ts by (simp add: reset_def for_loop_empty)
  show "for_loop 0 (unat (depth_m s)) (getCount_row H s key) getMaxCount = Some getMaxCount"
    using assms by (simp add: for_loop_empty)
qed

lemma allocated_sized: "allocated s \<Longrightarrow> sized s"
proof -
  assume a: "allocated s"
  then have "unat (width_m s * depth_m s) = unat (width_m s) * unat (depth_m s)"
    using unat_mult_lem [of "width_m s" "depth_m s"] by (simp add: allocated_def)
  with a show ?thesis by (simp add: sized_def allocated_def unat_tableSize)
qed

subsection \<open>Sequences of calls and \<open>saturated\<close>\<close>

lemma count_list_replicate: "x \<noteq> y \<Longrightarrow> count_list (replicate n x) y = 0"
  by (induction n) simp_all

lemma fresh_saturatedCells:
  "saturatedCells \<lparr>width_m = w, depth_m = d, saturated = c,
                    table_m = replicate n (0 :: 'a::len word)\<rparr> = 0"
  by (simp add: saturatedCells_def count_list_replicate getMaxCount_def)

lemma run_counting_saturated:
  fixes s :: "'a::len word sketch"
  assumes "list_all counting calls" and "run H fp calls s = Some s'"
    and "length (table_m s) < 2 ^ 64" and "unat (saturated s) = saturatedCells s"
  shows "unat (saturated s') = saturatedCells s'"
  using assms
proof (induction calls arbitrary: s)
  case Nil
  then show ?case by simp
next
  case (Cons call calls)
  from Cons.prems(2) obtain s1 where s1: "do_call H fp call s = Some s1"
    and rest: "run H fp calls s1 = Some s'"
    by (auto split: option.splits)
  from Cons.prems(1) have c: "counting call" and cs: "list_all counting calls" by simp_all
  have "length (table_m s1) < 2 ^ 64 \<and> unat (saturated s1) = saturatedCells s1"
  proof (cases call)
    case (Increment key)
    then have i: "increment H s key = Some s1" using s1 by simp
    from increment_Some(3,6) [OF i] Cons.prems(3,4) show ?thesis by simp
  next
    case (GetCount key)
    then have "s1 = s" using s1 by (auto split: option.splits)
    then show ?thesis using Cons.prems(3,4) by simp
  qed (use c in simp_all)
  then show ?case using Cons.IH [OF cs rest] by simp
qed

lemma run_counting_allocated:
  fixes s :: "'a::len word sketch"
  assumes "list_all counting calls" and "allocated s"
  shows "\<exists>s'. run H fp calls s = Some s' \<and> allocated s'"
  using assms
proof (induction calls arbitrary: s)
  case Nil
  then show ?case by simp
next
  case (Cons call calls)
  from Cons.prems(1) have c: "counting call" and cs: "list_all counting calls" by simp_all
  have "\<exists>s1. do_call H fp call s = Some s1 \<and> allocated s1"
  proof (cases call)
    case (Increment key)
    then show ?thesis using increment_allocated [OF Cons.prems(2), of H key] by simp
  next
    case (GetCount key)
    then show ?thesis using getCount_allocated [OF Cons.prems(2), of H key] Cons.prems(2) by auto
  qed (use c in simp_all)
  then obtain s1 where "do_call H fp call s = Some s1" "allocated s1" by blast
  then show ?case using Cons.IH [OF cs, of s1] by simp
qed

subsection \<open>More on the calls\<close>

lemma for_loop_first_undefined:
  assumes "i < n" and "body i s = None"
  shows "for_loop i n body s = None"
  using assms by (subst for_loop.simps) simp

lemma reset_allocated:
  fixes s :: "'a::len word sketch"
  assumes "allocated s"
  shows "\<exists>s'. reset s = Some s' \<and> allocated s'"
proof -
  from assms have "sized s" by (rule allocated_sized)
  then have "reset s = Some (s\<lparr>table_m := replicate (length (table_m s)) 0\<rparr>)"
    using reset_sized [of s] by (simp add: sized_def unat_tableSize)
  moreover have "allocated (s\<lparr>table_m := replicate (length (table_m s)) (0 :: 'a word)\<rparr>)"
    using assms by (simp add: allocated_def)
  ultimately show ?thesis by blast
qed

lemma resetCount_keeps_allocated:
  fixes s :: "'a::len word sketch"
  assumes "allocated s"
  shows "\<exists>s'. resetCount H s key = Some s' \<and> allocated s'"
proof -
  from resetCount_allocated [OF assms, of H key] obtain s' where
    "resetCount H s key = Some s'" "width_m s' = width_m s" "depth_m s' = depth_m s"
    "length (table_m s') = length (table_m s)" by blast
  then show ?thesis using assms by (auto simp: allocated_def)
qed

lemma decayCountsBy_cells:
  fixes s :: "'a::len word sketch"
  assumes "sized s" and "\<forall>i<length (table_m s). scale fp (table_m s ! i) decay \<noteq> None"
  shows "\<exists>s'. decayCountsBy fp s decay = Some s' \<and>
           width_m s' = width_m s \<and> depth_m s' = depth_m s \<and> saturated s' = saturated s \<and>
           length (table_m s') = length (table_m s) \<and>
           (\<forall>i<length (table_m s). scale fp (table_m s ! i) decay = Some (table_m s' ! i))"
proof -
  let ?n = "unat (tableSize s)"
  let ?I = "\<lambda>j (t :: 'a word sketch).
      width_m t = width_m s \<and> depth_m t = depth_m s \<and> saturated t = saturated s \<and>
      length (table_m t) = length (table_m s) \<and>
      (\<forall>i<length (table_m s).
          if i < j then scale fp (table_m s ! i) decay = Some (table_m t ! i)
          else table_m t ! i = table_m s ! i)"
  from assms(1) have n: "?n = length (table_m s)" by (simp add: sized_def)
  have "\<exists>s'. for_loop 0 ?n (decay_cell fp decay) s = Some s' \<and> ?I ?n s'"
  proof (rule for_loop_total [where I = ?I])
    show "?I 0 s" by simp
    show "0 \<le> ?n" by simp
  next
    fix j t assume j: "j < ?n" and I: "?I j t"
    from j n have jl: "j < length (table_m s)" by simp
    from I jl have same: "table_m t ! j = table_m s ! j" by auto
    from assms(2) jl obtain v where v: "scale fp (table_m s ! j) decay = Some v" by auto
    let ?t' = "t\<lparr>table_m := (table_m t)[j := v]\<rparr>"
    have step: "decay_cell fp decay j t = Some ?t'"
      using I jl same v by (simp add: decay_cell_def)
    have "if i < Suc j then scale fp (table_m s ! i) decay = Some (table_m ?t' ! i)
          else table_m ?t' ! i = table_m s ! i" if i: "i < length (table_m s)" for i
    proof (cases "i = j")
      case True
      then show ?thesis using v I jl by simp
    next
      case False
      from I i have "if i < j then scale fp (table_m s ! i) decay = Some (table_m t ! i)
          else table_m t ! i = table_m s ! i" by blast
      then show ?thesis using False by (auto simp: less_Suc_eq)
    qed
    then have "?I (Suc j) ?t'" using I by simp
    with step show "\<exists>t'. decay_cell fp decay j t = Some t' \<and> ?I (Suc j) t'" by blast
  qed
  then obtain s' where s': "for_loop 0 ?n (decay_cell fp decay) s = Some s'" and I: "?I ?n s'"
    by blast
  from I n have "\<forall>i<length (table_m s). scale fp (table_m s ! i) decay = Some (table_m s' ! i)"
    by auto
  with s' I show ?thesis by (auto simp: decayCountsBy_def)
qed

lemma range_check:
  "d \<noteq> NaN \<Longrightarrow> (double_le d 0 \<or> double_ge d 1) = (\<not> in_open_unit d)"
  by (cases d) auto

lemma do_call_sized:
  fixes s :: "'a::len word sketch"
  assumes "do_call H fp call s = Some s'" and "sized s"
  shows "sized s'"
proof -
  have "width_m s' = width_m s \<and> depth_m s' = depth_m s \<and>
        length (table_m s') = length (table_m s)"
  proof (cases call)
    case (Increment key)
    then show ?thesis using assms(1) increment_Some(1-3) [of H s key s'] by simp
  next
    case (GetCount key)
    then show ?thesis using assms(1) by (auto split: option.splits)
  next
    case (ResetCount key)
    then show ?thesis using assms(1) resetCount_frame [of H s key s'] by simp
  next
    case (DecayCountsBy decay)
    then show ?thesis using assms(1) decayCountsBy_frame [of fp s decay s'] by simp
  next
    case Reset
    then show ?thesis using assms(1) reset_frame [of s s'] by simp
  qed
  then show ?thesis using assms(2) by (simp add: sized_def tableSize_def)
qed

subsection \<open>A small instance\<close>

text \<open>A sketch of two rows of two 8-bit cells, hashed by \<open>H0\<close>.\<close>

lemma example_constructed:
  "CountMinSketchBase 2 2 =
     Inr \<lparr>width_m = 2, depth_m = 2, saturated = 0, table_m = [0, 0, 0, 0 :: 8 word]\<rparr>"
  unfolding CountMinSketchBase_def by code_simp

lemma example_increments:
  "increment_all H0 \<lparr>width_m = 2, depth_m = 2, saturated = 0, table_m = [0, 0, 0, 0 :: 8 word]\<rparr>
     [1, 2, 1] = Some \<lparr>width_m = 2, depth_m = 2, saturated = 0, table_m = [1, 2, 2, 1]\<rparr>"
  by code_simp

lemma example_getCount:
  "getCount H0 \<lparr>width_m = 2, depth_m = 2, saturated = 0, table_m = [1, 2, 2, 1 :: 8 word]\<rparr> 1
     = Some 2"
  by code_simp

lemma example_getIndex:
  "getIndex H0 \<lparr>width_m = 2, depth_m = 2, saturated = 0, table_m = [1, 2, 2, 1 :: 8 word]\<rparr>
     (of_nat 0) 1 = Some 1"
  "getIndex H0 \<lparr>width_m = 2, depth_m = 2, saturated = 0, table_m = [1, 2, 2, 1 :: 8 word]\<rparr>
     (of_nat 1) 1 = Some 2"
  by code_simp+

lemma example_unsaturated:
  "[1, 2, 2, 1 :: 8 word] ! unat (1 :: u64) \<noteq> getMaxCount"
  "[1, 2, 2, 1 :: 8 word] ! unat (2 :: u64) \<noteq> getMaxCount"
  by code_simp+

lemma example_allocated:
  "allocated \<lparr>width_m = 2, depth_m = 2, saturated = 0, table_m = [1, 2, 2, 1 :: 8 word]\<rparr>"
  by (simp add: allocated_def)

lemma example_cells:
  "(\<lambda>r. [1, 2, 2, 1 :: 8 word] !
      cell_index H0 \<lparr>width_m = 2, depth_m = 2, saturated = 0, table_m = [1, 2, 2, 1 :: 8 word]\<rparr> r 1)
     ` {..<unat (2 :: u32)} = {2}"
proof -
  have "{..<unat (2 :: u32)} = {0, 1}" by auto
  moreover have
    "cell_index H0 \<lparr>width_m = 2, depth_m = 2, saturated = 0, table_m = [1, 2, 2, 1 :: 8 word]\<rparr> 0 1 = 1"
    "cell_index H0 \<lparr>width_m = 2, depth_m = 2, saturated = 0, table_m = [1, 2, 2, 1 :: 8 word]\<rparr> 1 1 = 2"
    by (simp_all add: cell_index_def H0_def)
  ultimately show ?thesis by simp
qed

lemma example_cell_index:
  "cell_index H0 \<lparr>width_m = 2, depth_m = 2, saturated = 0, table_m = [1, 2, 2, 1 :: 8 word]\<rparr> 0 1 = 1"
  "cell_index H0 \<lparr>width_m = 2, depth_m = 2, saturated = 0, table_m = [1, 2, 2, 1 :: 8 word]\<rparr> 1 1 = 2"
  by (simp_all add: cell_index_def H0_def)

lemma example_saturation:
  "run H0 no_fp (replicate 255 (Increment 0) @ [GetCount 0])
       \<lparr>width_m = 1, depth_m = 1, saturated = 0, table_m = [0 :: 8 word]\<rparr>
     = Some \<lparr>width_m = 1, depth_m = 1, saturated = 1, table_m = [255 :: 8 word]\<rparr>"
  by code_simp

lemma example_increment_once:
  "increment H0 \<lparr>width_m = 2, depth_m = 2, saturated = 0, table_m = [1, 2, 2, 1 :: 8 word]\<rparr> 1
     = Some \<lparr>width_m = 2, depth_m = 2, saturated = 0, table_m = [1, 3, 3, 1]\<rparr>"
  "getCount H0 \<lparr>width_m = 2, depth_m = 2, saturated = 0, table_m = [1, 3, 3, 1 :: 8 word]\<rparr> 1
     = Some 3"
  by code_simp+

subsection \<open>Rounding to a double\<close>

lemma round_half_even_bounds: "\<lfloor>x\<rfloor> \<le> round_half_even x \<and> round_half_even x \<le> \<lfloor>x\<rfloor> + 1"
  by (simp add: round_half_even_def)

lemma round_half_even_of_int: "round_half_even (of_int m) = m"
  by (simp add: round_half_even_def)

lemma round_half_even_le: 
  assumes "x \<le> of_int m" shows "round_half_even x \<le> m"
proof (cases "x = of_int m")
  case True
  then show ?thesis by (simp add: round_half_even_of_int)
next
  case False
  with assms have "x < of_int m" by simp
  hence "\<lfloor>x\<rfloor> < m" by (simp add: floor_less_iff)
  with round_half_even_bounds [of x] show ?thesis by linarith
qed

lemma round_half_even_ge:
  assumes "of_int m \<le> x" shows "m \<le> round_half_even x"
proof -
  from assms have "m \<le> \<lfloor>x\<rfloor>" by (simp add: le_floor_iff)
  with round_half_even_bounds [of x] show ?thesis by linarith
qed

lemma round_half_even_mono:
  assumes "x \<le> y" shows "round_half_even x \<le> round_half_even y"
proof (cases "\<lfloor>x\<rfloor> = \<lfloor>y\<rfloor>")
  case True
  with assms show ?thesis by (simp add: round_half_even_def)
next
  case False
  moreover from assms have "\<lfloor>x\<rfloor> \<le> \<lfloor>y\<rfloor>" by (rule floor_mono)
  ultimately have "\<lfloor>x\<rfloor> + 1 \<le> \<lfloor>y\<rfloor>" by simp
  with round_half_even_bounds [of x] round_half_even_bounds [of y] show ?thesis by linarith
qed

lemma ulp_pos: "0 < ulp x"
  by (simp add: ulp_def)

lemma ulp_times:
  "ulp x * 2 ^ 52 = 2 powr of_int (binade x)"
  "ulp x * 2 ^ 53 = 2 powr of_int (binade x + 1)"
proof -
  have p: "(2::real) ^ 52 = 2 powr 52" "(2::real) ^ 53 = 2 powr 53"
    by (simp_all only: powr_numeral zero_le_numeral)
  have "ulp x * 2 powr 52 = 2 powr (of_int (binade x - 52) + 52)"
    unfolding ulp_def by (simp only: powr_add)
  also have "\<dots> = 2 powr of_int (binade x)" by simp
  finally show "ulp x * 2 ^ 52 = 2 powr of_int (binade x)" by (simp only: p)
  have "ulp x * 2 powr 53 = 2 powr (of_int (binade x - 52) + 53)"
    unfolding ulp_def by (simp only: powr_add)
  also have "\<dots> = 2 powr of_int (binade x + 1)" by (simp add: add.commute)
  finally show "ulp x * 2 ^ 53 = 2 powr of_int (binade x + 1)" by (simp only: p)
qed

lemma binade_upper:
  assumes "0 < x" shows "x < 2 powr of_int (binade x + 1)"
proof -
  have "log 2 x < of_int (\<lfloor>log 2 x\<rfloor> + 1)" by linarith
  also have "\<dots> \<le> of_int (binade x + 1)" by (simp add: binade_def)
  finally have "2 powr log 2 x < 2 powr of_int (binade x + 1)" by simp
  with assms show ?thesis by simp
qed

lemma binade_lower:
  assumes "0 < x" and "- 1022 < binade x" shows "2 powr of_int (binade x) \<le> x"
proof -
  from assms(2) have "binade x = \<lfloor>log 2 x\<rfloor>" by (simp add: binade_def max_def split: if_splits)
  hence "of_int (binade x) \<le> log 2 x" by simp
  hence "2 powr of_int (binade x) \<le> 2 powr log 2 x" by simp
  with assms(1) show ?thesis by simp
qed

lemma binade_mono:
  assumes "0 < x" and "x \<le> y" shows "binade x \<le> binade y"
proof -
  from assms have "log 2 x \<le> log 2 y" by simp
  hence "\<lfloor>log 2 x\<rfloor> \<le> \<lfloor>log 2 y\<rfloor>" by (rule floor_mono)
  thus ?thesis by (simp add: binade_def)
qed

lemma round_double_pos:
  "0 < x \<Longrightarrow> round_double x = ulp x * of_int (round_half_even (x / ulp x))"
  by (simp add: round_double_def)

lemma round_double_upper:
  assumes "0 < x" shows "round_double x \<le> 2 powr of_int (binade x + 1)"
proof -
  have "x < ulp x * 2 ^ 53"
    using binade_upper [OF assms] by (simp only: ulp_times)
  hence "x / ulp x \<le> 2 ^ 53"
    using ulp_pos [of x] by (simp add: field_simps)
  hence "x / ulp x \<le> of_int (2 ^ 53)" by simp
  hence "round_half_even (x / ulp x) \<le> 2 ^ 53" by (rule round_half_even_le)
  hence "(of_int (round_half_even (x / ulp x)) :: real) \<le> of_int (2 ^ 53)"
    by (simp only: of_int_le_iff)
  hence "ulp x * of_int (round_half_even (x / ulp x)) \<le> ulp x * 2 ^ 53"
    using ulp_pos [of x] by simp
  also have "\<dots> = 2 powr of_int (binade x + 1)" by (rule ulp_times)
  finally show ?thesis using assms by (simp only: round_double_pos)
qed

lemma round_double_lower:
  assumes "0 < x" and "- 1022 < binade x" shows "2 powr of_int (binade x) \<le> round_double x"
proof -
  have "ulp x * 2 ^ 52 \<le> x"
    using binade_lower [OF assms] by (simp only: ulp_times)
  hence "2 ^ 52 \<le> x / ulp x"
    using ulp_pos [of x] by (simp add: field_simps)
  hence "of_int (2 ^ 52) \<le> x / ulp x" by simp
  hence "2 ^ 52 \<le> round_half_even (x / ulp x)" by (rule round_half_even_ge)
  hence "(of_int (2 ^ 52) :: real) \<le> of_int (round_half_even (x / ulp x))"
    by (simp only: of_int_le_iff)
  hence "ulp x * 2 ^ 52 \<le> ulp x * of_int (round_half_even (x / ulp x))"
    using ulp_pos [of x] by simp
  thus ?thesis using assms by (simp only: round_double_pos ulp_times)
qed

lemma round_double_nonneg:
  assumes "0 \<le> x" shows "0 \<le> round_double x"
proof (cases "x = 0")
  case True
  then show ?thesis by (simp add: round_double_def)
next
  case False
  with assms have pos: "0 < x" by simp
  have "0 \<le> x / ulp x" using pos ulp_pos [of x] by simp
  hence "of_int 0 \<le> x / ulp x" by simp
  hence "0 \<le> round_half_even (x / ulp x)" by (rule round_half_even_ge)
  thus ?thesis using pos ulp_pos [of x] by (simp add: round_double_pos)
qed

lemma round_double_mono:
  assumes "0 \<le> x" and "x \<le> y" shows "round_double x \<le> round_double y"
proof (cases "x = 0")
  case True
  with assms round_double_nonneg [of y] show ?thesis by (simp add: round_double_def)
next
  case False
  with assms have x: "0 < x" and y: "0 < y" by simp_all
  have le: "binade x \<le> binade y" using x assms(2) by (rule binade_mono)
  show ?thesis
  proof (cases "binade x = binade y")
    case True
    hence u: "ulp y = ulp x" by (simp add: ulp_def)
    have "x / ulp x \<le> y / ulp x" using assms(2) ulp_pos [of x] by (simp add: divide_right_mono)
    hence "round_half_even (x / ulp x) \<le> round_half_even (y / ulp x)"
      by (rule round_half_even_mono)
    thus ?thesis using x y ulp_pos [of x] by (simp add: round_double_pos u)
  next
    case False
    with le have lt: "binade x + 1 \<le> binade y" by simp
    have "- 1022 \<le> binade x" by (simp add: binade_def)
    with lt have "- 1022 < binade y" by simp
    with y have "2 powr of_int (binade y) \<le> round_double y" by (rule round_double_lower)
    moreover have "round_double x \<le> 2 powr of_int (binade x + 1)"
      using x by (rule round_double_upper)
    moreover have "(2::real) powr of_int (binade x + 1) \<le> 2 powr of_int (binade y)"
      using lt by (simp only: powr_le_cancel_iff of_int_le_iff)
    ultimately show ?thesis by linarith
  qed
qed

lemma round_double_of_nat:
  assumes "n < 2 ^ 53" shows "round_double (real n) = real n"
proof (cases "n = 0")
  case True
  then show ?thesis by (simp add: round_double_def)
next
  case False
  hence pos: "0 < real n" and one: "1 \<le> real n" by simp_all
  from assms have "real n < 2 ^ 53" by (metis of_nat_less_iff of_nat_numeral of_nat_power)
  hence "real n < 2 powr 53" by simp
  hence "log 2 (real n) < 53" using pos by (simp add: log_less_iff)
  hence up: "\<lfloor>log 2 (real n)\<rfloor> \<le> 52" by (simp add: floor_le_iff)
  have "0 \<le> log 2 (real n)" using one by simp
  hence lo: "0 \<le> \<lfloor>log 2 (real n)\<rfloor>" by simp
  define k where "k = nat (52 - \<lfloor>log 2 (real n)\<rfloor>)"
  have b: "binade (real n) - 52 = - int k" using up lo by (simp add: binade_def k_def)
  have u: "ulp (real n) = 1 / 2 ^ k"
    unfolding ulp_def b by (simp add: powr_minus powr_realpow divide_inverse)
  have "real n / ulp (real n) = of_int (int n * 2 ^ k)" by (simp add: u)
  hence "round_half_even (real n / ulp (real n)) = int n * 2 ^ k"
    by (simp only: round_half_even_of_int)
  thus ?thesis using pos by (simp add: round_double_pos u)
qed

lemma scale_rounded_unit:
  fixes c :: "'a::len word"
  assumes d: "0 \<le> d" "d \<le> 1"
    and mono: "\<And>x y. 0 \<le> x \<Longrightarrow> x \<le> y \<Longrightarrow> rnd x \<le> rnd y"
    and ints: "\<And>n. n < 2 ^ LENGTH('a) \<Longrightarrow> rnd (real n) = real n"
  shows "\<exists>v. scale_rounded rnd c (Finite d) = Some v \<and>
             int (unat v) = \<lfloor>rnd (real (unat c) * d)\<rfloor> \<and> v \<le> c \<and>
             \<lfloor>real (unat c) * d\<rfloor> \<le> int (unat v) \<and>
             int (unat v) \<le> \<lfloor>real (unat c) * d\<rfloor> + 1"
proof -
  let ?p = "real (unat c) * d"
  let ?t = "\<lfloor>rnd ?p\<rfloor>"
  have cl: "unat c < 2 ^ LENGTH('a)" by (rule unsigned_less)
  have c: "rnd (real (unat c)) = real (unat c)" using cl by (rule ints)
  have z: "rnd 0 = 0" using ints [of 0] by simp
  have n0: "0 \<le> real (unat c)" by (rule of_nat_0_le_iff)
  have p0: "0 \<le> ?p" using n0 d(1) by (rule mult_nonneg_nonneg)
  have p1: "?p \<le> real (unat c)" using d(2) n0 by (rule mult_left_le)
  have "rnd 0 \<le> rnd ?p" using p0 by (intro mono) simp_all
  hence v0: "0 \<le> rnd ?p" by (simp only: z)
  have "rnd ?p \<le> rnd (real (unat c))" using p0 p1 by (rule mono)
  hence v1: "rnd ?p \<le> real (unat c)" by (simp only: c)
  have t0: "0 \<le> ?t" using v0 by simp
  have "?t \<le> \<lfloor>real (unat c)\<rfloor>" using v1 by (rule floor_mono)
  also have "\<lfloor>real (unat c)\<rfloor> = int (unat c)" by (rule floor_of_nat)
  finally have t1: "?t \<le> int (unat c)" .
  have "int (unat c) < 2 ^ LENGTH('a)" using cl by (metis of_nat_less_iff of_nat_numeral of_nat_power)
  with t1 have t2: "?t < 2 ^ LENGTH('a)" by linarith
  have s: "scale_rounded rnd c (Finite d) = Some (word_of_int ?t)"
    unfolding scale_rounded_def double.case Let_def c using v0 t0 t2 by simp
  have u: "int (unat (word_of_int ?t :: 'a word)) = ?t"
    using t0 t2 by (simp add: unsigned_of_int take_bit_int_eq_self)
  have "unat (word_of_int ?t :: 'a word) \<le> unat c" using u t1 by linarith
  hence w: "(word_of_int ?t :: 'a word) \<le> c" by (simp only: word_le_nat_alt)
  define m where "m = nat \<lfloor>?p\<rfloor>"
  have f0: "0 \<le> \<lfloor>?p\<rfloor>" using p0 by simp
  have "\<lfloor>?p\<rfloor> \<le> \<lfloor>real (unat c)\<rfloor>" using p1 by (rule floor_mono)
  also have "\<lfloor>real (unat c)\<rfloor> = int (unat c)" by (rule floor_of_nat)
  finally have f1: "\<lfloor>?p\<rfloor> \<le> int (unat c)" .
  have m: "int m = \<lfloor>?p\<rfloor>" using f0 by (simp add: m_def)
  have ml: "m \<le> unat c" using f1 m by linarith
  have mp: "real m \<le> ?p"
  proof -
    have "real_of_int (int m) \<le> ?p" unfolding m by (rule of_int_floor_le)
    thus ?thesis by simp
  qed
  have "rnd (real m) \<le> rnd ?p" using mp by (intro mono) simp_all
  moreover have "m < 2 ^ LENGTH('a)" using ml cl by (rule le_less_trans)
  hence "rnd (real m) = real m" by (rule ints)
  ultimately have "real_of_int (int m) \<le> rnd ?p" by simp
  hence "int m \<le> ?t" by (simp only: le_floor_iff)
  hence lower: "\<lfloor>?p\<rfloor> \<le> ?t" by (simp only: m)
  have upper: "?t \<le> \<lfloor>?p\<rfloor> + 1"
  proof (cases "m < unat c")
    case True
    hence "Suc m \<le> unat c" by simp
    hence sl: "Suc m < 2 ^ LENGTH('a)" using cl by (rule le_less_trans)
    have "?p \<le> real_of_int (\<lfloor>?p\<rfloor> + 1)" by linarith
    also have "real_of_int (\<lfloor>?p\<rfloor> + 1) = real (Suc m)" unfolding m [symmetric] by simp
    finally have "?p \<le> real (Suc m)" .
    with p0 have "rnd ?p \<le> rnd (real (Suc m))" by (rule mono)
    also have "rnd (real (Suc m)) = real (Suc m)" using sl by (rule ints)
    finally have "?t \<le> \<lfloor>real (Suc m)\<rfloor>" by (rule floor_mono)
    also have "\<lfloor>real (Suc m)\<rfloor> = int (Suc m)" by (rule floor_of_nat)
    finally show ?thesis using m by simp
  next
    case False
    with ml have "m = unat c" by simp
    with t1 m show ?thesis by simp
  qed
  have "\<lfloor>?p\<rfloor> \<le> int (unat (word_of_int ?t :: 'a word)) \<and>
        int (unat (word_of_int ?t :: 'a word)) \<le> \<lfloor>?p\<rfloor> + 1"
    unfolding u using lower upper by (rule conjI)
  with s u w show ?thesis by blast
qed

lemma decayCountsBy_rounded:
  fixes s :: "'a::len word sketch"
  assumes "sized s" and d: "0 \<le> d" "d \<le> 1"
    and mono: "\<And>x y. 0 \<le> x \<Longrightarrow> x \<le> y \<Longrightarrow> rnd x \<le> rnd y"
    and ints: "\<And>n. n < 2 ^ LENGTH('a) \<Longrightarrow> rnd (real n) = real n"
  shows "\<exists>s'. decayCountsBy (fp\<lparr>scale := scale_rounded rnd\<rparr>) s (Finite d) = Some s' \<and>
           width_m s' = width_m s \<and> depth_m s' = depth_m s \<and> saturated s' = saturated s \<and>
           length (table_m s') = length (table_m s) \<and>
           (\<forall>i<length (table_m s).
               int (unat (table_m s' ! i)) = \<lfloor>rnd (real (unat (table_m s ! i)) * d)\<rfloor> \<and>
               table_m s' ! i \<le> table_m s ! i \<and>
               \<lfloor>real (unat (table_m s ! i)) * d\<rfloor> \<le> int (unat (table_m s' ! i)) \<and>
               int (unat (table_m s' ! i)) \<le> \<lfloor>real (unat (table_m s ! i)) * d\<rfloor> + 1)"
proof -
  let ?fp = "fp\<lparr>scale := scale_rounded rnd\<rparr>"
  have each: "\<exists>v. scale_rounded rnd c (Finite d) = Some v \<and>
             int (unat v) = \<lfloor>rnd (real (unat c) * d)\<rfloor> \<and> v \<le> c \<and>
             \<lfloor>real (unat c) * d\<rfloor> \<le> int (unat v) \<and>
             int (unat v) \<le> \<lfloor>real (unat c) * d\<rfloor> + 1" for c :: "'a word"
    using d mono ints by (rule scale_rounded_unit)
  have "\<forall>i<length (table_m s). scale ?fp (table_m s ! i) (Finite d) \<noteq> None"
    using each by fastforce
  with assms(1) obtain s' where s': "decayCountsBy ?fp s (Finite d) = Some s'"
      "width_m s' = width_m s" "depth_m s' = depth_m s" "saturated s' = saturated s"
      "length (table_m s') = length (table_m s)"
    and cells: "\<forall>i<length (table_m s). scale ?fp (table_m s ! i) (Finite d) = Some (table_m s' ! i)"
    using decayCountsBy_cells [of s ?fp "Finite d"] by blast
  have "int (unat (table_m s' ! i)) = \<lfloor>rnd (real (unat (table_m s ! i)) * d)\<rfloor> \<and>
        table_m s' ! i \<le> table_m s ! i \<and>
        \<lfloor>real (unat (table_m s ! i)) * d\<rfloor> \<le> int (unat (table_m s' ! i)) \<and>
        int (unat (table_m s' ! i)) \<le> \<lfloor>real (unat (table_m s ! i)) * d\<rfloor> + 1"
    if i: "i < length (table_m s)" for i
  proof -
    from cells i have "scale_rounded rnd (table_m s ! i) (Finite d) = Some (table_m s' ! i)"
      by simp
    with each [of "table_m s ! i"] show ?thesis by auto
  qed
  with s' show ?thesis by blast
qed

lemma round_double_three: "round_double 3 = 3"
  using round_double_of_nat [of 3] by simp

lemma round_double_below_one:
  "round_double (18014398509481983 / 18014398509481984) = 1"
proof -
  let ?x = "18014398509481983 / 18014398509481984 :: real"
  have "\<lfloor>log 2 ?x\<rfloor> = - 1"
    by (subst floor_log_eq_powr_iff) (simp_all add: powr_neg_one)
  hence b: "binade ?x = - 1" by (simp add: binade_def)
  have "(2::real) powr (- 53) = 1 / 2 powr 53" by (rule powr_minus_divide)
  hence u: "ulp ?x = 1 / 2 ^ 53" by (simp add: ulp_def b)
  have q: "?x / ulp ?x = 18014398509481983 / 2" by (simp add: u)
  have f: "\<lfloor>18014398509481983 / 2 :: real\<rfloor> = 9007199254740991" by simp
  have r: "round_half_even (18014398509481983 / 2) = 9007199254740992"
    by (subst round_half_even_def) (simp add: f)
  have "round_double ?x = ulp ?x * of_int (round_half_even (?x / ulp ?x))"
    by (rule round_double_pos) simp
  also have "\<dots> = ulp ?x * of_int 9007199254740992" by (simp only: q r)
  also have "\<dots> = 1" by (simp add: u)
  finally show ?thesis .
qed

lemma scale_three_by_a_third:
  "scale_rounded round_double (3 :: 8 word) (Finite (6004799503160661 / 18014398509481984)) = Some 1"
  by (simp add: scale_rounded_def round_double_three round_double_below_one)

lemma three_increments:
  "increment_all H0 \<lparr>width_m = 1, depth_m = 1, saturated = 0, table_m = [0 :: 8 word]\<rparr> [7, 7, 7]
   = Some \<lparr>width_m = 1, depth_m = 1, saturated = 0, table_m = [3]\<rparr>"
  by code_simp

lemma decay_three:
  "decayCountsBy (fp\<lparr>scale := scale_rounded round_double\<rparr>)
     \<lparr>width_m = 1, depth_m = 1, saturated = 0, table_m = [3 :: 8 word]\<rparr>
     (Finite (6004799503160661 / 18014398509481984))
   = Some \<lparr>width_m = 1, depth_m = 1, saturated = 0, table_m = [1]\<rparr>"
  by (simp add: decayCountsBy_def unat_tableSize for_loop.simps decay_cell_def
      scale_three_by_a_third)

subsection \<open>Sketches whose table size overflows\<close>

text \<open>
  \<open>65536 * 65536\<close> is 0 in 32 bits, and \<open>2147483649 * 3\<close> is 2147483651 there, as
  \<open>2147483649 * 2\<close> is 2.
\<close>

lemma getMaxCount_8: "(getMaxCount :: 8 word) = 255"
  by (simp add: getMaxCount_def)

lemma getIndex_H1:
  "getIndex H1 \<lparr>width_m = 2147483649, depth_m = 3, saturated = c, table_m = t\<rparr> 0 0 = Some 2"
  "getIndex H1 \<lparr>width_m = 2147483649, depth_m = 3, saturated = c, table_m = t\<rparr> 1 0 = Some 2147483649"
  "getIndex H1 \<lparr>width_m = 2147483649, depth_m = 3, saturated = c, table_m = t\<rparr> 2 0 = Some 2"
  "getIndex H1 \<lparr>width_m = 2147483649, depth_m = 3, saturated = c, table_m = t\<rparr> 0 1 = Some 5"
  "getIndex H1 \<lparr>width_m = 2147483649, depth_m = 3, saturated = c, table_m = t\<rparr> 1 1 = Some 2147483649"
  "getIndex H1 \<lparr>width_m = 2147483649, depth_m = 3, saturated = c, table_m = t\<rparr> 2 1 = Some 7"
  by (simp_all add: getIndex_def H1_def)

lemma wrapped_constructed:
  "(CountMinSketchBase 2147483649 3 :: failure + 'a::len word sketch) =
     Inr \<lparr>width_m = 2147483649, depth_m = 3, saturated = 0, table_m = replicate 2147483651 0\<rparr>"
  by (simp add: CountMinSketchBase_eq)

lemma wrapped_two_increments:
  "map_option (\<lambda>s. (table_m s ! 2, table_m s ! 2147483649))
     (run H1 fp [Increment 0, Increment 1]
        \<lparr>width_m = 2147483649, depth_m = 3, saturated = 0,
          table_m = replicate 2147483651 (0 :: 8 word)\<rparr>) = Some (2, 2)"
  "Option.bind
     (run H1 fp [Increment 0, Increment 1]
        \<lparr>width_m = 2147483649, depth_m = 3, saturated = 0,
          table_m = replicate 2147483651 (0 :: 8 word)\<rparr>)
     (\<lambda>s. getCount H1 s 0) = Some 2"
  by (simp_all add: increment_def getCount_def increment_row_def getCount_row_def
      for_loop.simps getIndex_H1 getMaxCount_8 Let_def)

lemma wrapped_resetCount:
  "map_option (\<lambda>s. (table_m s ! 2, table_m s ! 2147483649))
     (run H1 fp [Increment 0, Increment 1, ResetCount 0]
        \<lparr>width_m = 2147483649, depth_m = 3, saturated = 0,
          table_m = replicate 2147483651 (0 :: 8 word)\<rparr>) = Some (254, 0)"
  by (simp add: increment_def getCount_def resetCount_def increment_row_def getCount_row_def
      resetCount_row_def for_loop.simps getIndex_H1 getMaxCount_8 Let_def)

lemma no_table:
  fixes s :: "'a::len word sketch"
  defines "s \<equiv> \<lparr>width_m = 65536, depth_m = 65536, saturated = 0, table_m = []\<rparr>"
  shows "(CountMinSketchBase 65536 65536 :: failure + 'a word sketch) = Inr s"
    and "increment H s key = None"
    and "getCount H s key = None"
    and "resetCount H s key = None"
    and "reset s = Some s"
proof -
  have p: "(65536 :: u32) * 65536 = 0" by simp
  show "(CountMinSketchBase 65536 65536 :: failure + 'a word sketch) = Inr s"
    by (simp add: CountMinSketchBase_eq p s_def)
  have d: "0 < unat (depth_m s)" by (simp add: s_def)
  have "getIndex H s (of_nat 0) key \<noteq> None" by (simp add: getIndex_def s_def)
  then have i: "increment_row H key 0 s = None" and g: "getCount_row H s key 0 c = None" for c
    by (auto simp: increment_row_def getCount_row_def s_def)
  show "increment H s key = None"
    unfolding increment_def using d i by (rule for_loop_first_undefined)
  have "for_loop 0 (unat (depth_m s)) (getCount_row H s key) getMaxCount = None"
    using d g by (rule for_loop_first_undefined)
  then show get: "getCount H s key = None" by (simp add: getCount_def)
  then show "resetCount H s key = None" by (simp add: resetCount_def)
  show "reset s = Some s"
    by (simp add: reset_def unat_tableSize s_def p for_loop.simps)
qed

lemma width_not_representable:
  "\<not> (\<exists>fp width. calculateWidth fp (Finite (1 / 2 ^ 40)) 0 = Inr width \<and>
         int (unat width) = \<lceil>2 / (1 / 2 ^ 40 :: real)\<rceil>)"
proof
  assume "\<exists>fp width. calculateWidth fp (Finite (1 / 2 ^ 40)) 0 = Inr width \<and>
         int (unat width) = \<lceil>2 / (1 / 2 ^ 40 :: real)\<rceil>"
  then obtain width :: u32 where w: "int (unat width) = \<lceil>2 / (1 / 2 ^ 40 :: real)\<rceil>" by blast
  have "2 / (1 / 2 ^ 40 :: real) = of_int (2 ^ 41)" by simp
  then have "\<lceil>2 / (1 / 2 ^ 40 :: real)\<rceil> = 2 ^ 41" by (simp only: ceiling_of_int)
  with w have "int (unat width) = 2 ^ 41" by (simp only:)
  moreover have "unat width < 2 ^ 32" using unsigned_less [of width, where 'a = nat] by simp
  then have "int (unat width) < 2 ^ 32" by (metis of_nat_less_iff of_nat_numeral of_nat_power)
  ultimately show False by (simp only:) simp
qed

section \<open>The claims\<close>

text \<open>
  C1 (never-undercount) on a sketch whose table size overflows. The constructor accepts
  \<open>width = depth = 65536\<close>: the product \<open>width_ * depth_\<close> is computed in 32 bits and
  is 0, so the table has no cell. On the sketch it returns, the first \<open>increment\<close>
  accesses a cell outside the table in its first iteration, and so does \<open>getCount\<close>:
  neither has a result, for any key and any hash functions, and there is no count to
  compare with the number of \<open>increment\<close> calls.
\<close>

theorem increment_outside_the_table:
  "(CountMinSketchBase 65536 65536 :: failure + 'a::len word sketch) =
     Inr \<lparr>width_m = 65536, depth_m = 65536, saturated = 0, table_m = []\<rparr> \<and>
   increment_all H \<lparr>width_m = 65536, depth_m = 65536, saturated = 0, table_m = [] :: 'a word list\<rparr>
     [key] = None \<and>
   getCount H \<lparr>width_m = 65536, depth_m = 65536, saturated = 0, table_m = [] :: 'a word list\<rparr> key
     = None"
  by (simp add: no_table)

text \<open>
  C2, as stated, fails: \<open>saturated\<close> is written by \<open>increment\<close> alone. After 255 calls
  of \<open>increment\<close> on a sketch of one 8-bit cell and a \<open>reset\<close>, the cell is 0 and
  \<open>saturated\<close> is still 1.
\<close>

theorem saturated_stale_after_reset:
  "CountMinSketchBase 1 1 = Inr \<lparr>width_m = 1, depth_m = 1, saturated = 0, table_m = [0 :: 8 word]\<rparr> \<and>
   run H0 no_fp (replicate 255 (Increment 0) @ [Reset])
       \<lparr>width_m = 1, depth_m = 1, saturated = 0, table_m = [0 :: 8 word]\<rparr>
     = Some \<lparr>width_m = 1, depth_m = 1, saturated = 1, table_m = [0 :: 8 word]\<rparr> \<and>
   unat (getSaturatedCounts \<lparr>width_m = 1, depth_m = 1, saturated = 1, table_m = [0 :: 8 word]\<rparr>) = 1 \<and>
   saturatedCells \<lparr>width_m = 1, depth_m = 1, saturated = 1, table_m = [0 :: 8 word]\<rparr> = 0"
proof -
  have "CountMinSketchBase 1 1 = Inr \<lparr>width_m = 1, depth_m = 1, saturated = 0, table_m = [0 :: 8 word]\<rparr>"
    by (simp add: CountMinSketchBase_eq)
  moreover have "run H0 no_fp (replicate 255 (Increment 0) @ [Reset])
       \<lparr>width_m = 1, depth_m = 1, saturated = 0, table_m = [0 :: 8 word]\<rparr>
     = Some \<lparr>width_m = 1, depth_m = 1, saturated = 1, table_m = [0 :: 8 word]\<rparr>"
    by code_simp
  moreover have "saturatedCells \<lparr>width_m = 1, depth_m = 1, saturated = 1, table_m = [0 :: 8 word]\<rparr> = 0"
    by (simp add: saturatedCells_def getMaxCount_def)
  ultimately show ?thesis by (simp add: getSaturatedCounts_def)
qed

text \<open>
  C2, amended. At every state reached from a freshly constructed sketch by calls of
  \<open>increment\<close> and \<open>getCount\<close> alone, \<open>saturated\<close> is the number of cells that hold the
  maximum of the counter type (and those calls all have a result when the product of the
  dimensions fits 32 bits); \<open>resetCount\<close>, \<open>decayCountsBy\<close> and \<open>reset\<close> leave \<open>saturated\<close>
  as it is.
\<close>

theorem saturated_counts_cells:
  fixes s0 :: "'a::len word sketch"
  assumes "CountMinSketchBase width depth = Inr s0"
  shows "(\<forall>calls s. list_all counting calls \<longrightarrow> run H fp calls s0 = Some s \<longrightarrow>
            unat (getSaturatedCounts s) = saturatedCells s) \<and>
         (unat width * unat depth < 2 ^ 32 \<longrightarrow>
            (\<forall>calls. list_all counting calls \<longrightarrow> (\<exists>s. run H fp calls s0 = Some s))) \<and>
         (\<forall>(s :: 'a word sketch) s' key. resetCount H s key = Some s' \<longrightarrow>
            getSaturatedCounts s' = getSaturatedCounts s) \<and>
         (\<forall>(s :: 'a word sketch) s' decay. decayCountsBy fp s decay = Some s' \<longrightarrow>
            getSaturatedCounts s' = getSaturatedCounts s) \<and>
         (\<forall>(s :: 'a word sketch) s'. reset s = Some s' \<longrightarrow>
            getSaturatedCounts s' = getSaturatedCounts s)"
  unfolding getSaturatedCounts_def
proof (intro conjI allI impI)
  fix calls s
  assume c: "list_all counting calls" and r: "run H fp calls s0 = Some s"
  from assms have s0: "s0 = \<lparr>width_m = width, depth_m = depth, saturated = 0,
                 table_m = replicate (unat (width * depth)) 0\<rparr>"
    by (auto simp: CountMinSketchBase_eq split: if_splits)
  have "unat (width * depth) < 2 ^ 32" using unsigned_less [of "width * depth", where 'a = nat] by simp
  then have len: "length (table_m s0) < 2 ^ 64" using s0 by simp
  have "unat (saturated s0) = saturatedCells s0"
    unfolding s0 by (simp add: fresh_saturatedCells)
  with c r len show "unat (saturated s) = saturatedCells s" by (rule run_counting_saturated)
next
  fix calls
  assume "unat width * unat depth < 2 ^ 32" and c: "list_all counting calls"
  with assms have "allocated s0" using CountMinSketchBase_allocated by blast
  with c show "\<exists>s. run H fp calls s0 = Some s" using run_counting_allocated by blast
next
  fix s s' :: "'a word sketch" and key
  assume "resetCount H s key = Some s'"
  then show "saturated s' = saturated s" using resetCount_frame by blast
next
  fix s s' :: "'a word sketch" and decay
  assume "decayCountsBy fp s decay = Some s'"
  then show "saturated s' = saturated s" using decayCountsBy_frame by blast
next
  fix s s' :: "'a word sketch"
  assume "reset s = Some s'"
  then show "saturated s' = saturated s" using reset_frame by blast
qed

theorem saturated_counts_cells_witness:
  "list_all counting (replicate 255 (Increment 0) @ [GetCount 0]) \<and>
   run H0 no_fp (replicate 255 (Increment 0) @ [GetCount 0])
       \<lparr>width_m = 1, depth_m = 1, saturated = 0, table_m = [0 :: 8 word]\<rparr>
     = Some \<lparr>width_m = 1, depth_m = 1, saturated = 1, table_m = [255 :: 8 word]\<rparr> \<and>
   unat (getSaturatedCounts \<lparr>width_m = 1, depth_m = 1, saturated = 1, table_m = [255 :: 8 word]\<rparr>) =
     saturatedCells \<lparr>width_m = 1, depth_m = 1, saturated = 1, table_m = [255 :: 8 word]\<rparr>"
proof -
  have ctor: "CountMinSketchBase 1 1 =
      Inr \<lparr>width_m = 1, depth_m = 1, saturated = 0, table_m = [0 :: 8 word]\<rparr>"
    by (simp add: CountMinSketchBase_eq)
  have c: "list_all counting (replicate 255 (Increment 0) @ [GetCount 0])"
    by (simp add: list_all_iff)
  from saturated_counts_cells [OF ctor, of H0 no_fp] c example_saturation
  have "unat (getSaturatedCounts \<lparr>width_m = 1, depth_m = 1, saturated = 1, table_m = [255 :: 8 word]\<rparr>) =
     saturatedCells \<lparr>width_m = 1, depth_m = 1, saturated = 1, table_m = [255 :: 8 word]\<rparr>"
    by blast
  with c example_saturation show ?thesis by blast
qed

text \<open>
  C3 on a sketch whose table size overflows. \<open>getIndex\<close> computes \<open>hashNum * width_\<close>
  in 32 bits. On the sketch the constructor returns for \<open>width = 2147483649\<close> and
  \<open>depth = 3\<close>, whose table has 2147483651 cells, the index of row 2 is
  \<open>2 + (combineHashes (hashInt 2) key mod width)\<close>, a cell of row 0 or 1, where
  \<open>row * width + (combineHashes (hashInt row) key mod width)\<close> is 4294967296 more, beyond
  the table. On the sketch of \<open>width = depth = 65536\<close>, whose table has no cell,
  \<open>getCount\<close> has no result.
\<close>

theorem getIndex_row_offset_wraps:
  "(CountMinSketchBase 2147483649 3 :: failure + 'a::len word sketch) =
     Inr \<lparr>width_m = 2147483649, depth_m = 3, saturated = 0, table_m = replicate 2147483651 0\<rparr> \<and>
   getIndex H \<lparr>width_m = 2147483649, depth_m = 3, saturated = 0,
               table_m = replicate 2147483651 (0 :: 'a word)\<rparr> 2 key
     = Some (2 + combineHashes H (hashInt H 2) key mod 2147483649) \<and>
   cell_index H \<lparr>width_m = 2147483649, depth_m = 3, saturated = 0,
                  table_m = replicate 2147483651 (0 :: 'a word)\<rparr> 2 key
     = 4294967298 + unat (combineHashes H (hashInt H 2) key) mod 2147483649 \<and>
   length (table_m \<lparr>width_m = 2147483649, depth_m = 3, saturated = 0,
                    table_m = replicate 2147483651 (0 :: 'a word)\<rparr>) = 2147483651 \<and>
   getCount H \<lparr>width_m = 65536, depth_m = 65536, saturated = 0, table_m = [] :: 'a word list\<rparr> key
     = None"
  by (simp add: wrapped_constructed no_table getIndex_def cell_index_def)

text \<open>
  C4 on a sketch whose table size overflows. On the sketch of \<open>width = 2147483649\<close> and
  \<open>depth = 3\<close>, of 8-bit cells, rows 0 and 2 of key 0 are the same cell 2 under the
  hash functions \<open>H1\<close>. After \<open>increment 0\<close> and \<open>increment 1\<close> that cell and the cell
  of row 1 hold 2, and \<open>getCount 0\<close> is 2; \<open>resetCount 0\<close> then has every access inside
  the table and subtracts 2 from cell 2 twice: it leaves 254 there, not \<open>2 - 2\<close>.
\<close>

theorem resetCount_subtracts_twice:
  "CountMinSketchBase 2147483649 3 =
     Inr \<lparr>width_m = 2147483649, depth_m = 3, saturated = 0,
          table_m = replicate 2147483651 (0 :: 8 word)\<rparr> \<and>
   map_option (\<lambda>s. (table_m s ! 2, table_m s ! 2147483649))
     (run H1 no_fp [Increment 0, Increment 1]
        \<lparr>width_m = 2147483649, depth_m = 3, saturated = 0,
          table_m = replicate 2147483651 (0 :: 8 word)\<rparr>) = Some (2, 2) \<and>
   Option.bind
     (run H1 no_fp [Increment 0, Increment 1]
        \<lparr>width_m = 2147483649, depth_m = 3, saturated = 0,
          table_m = replicate 2147483651 (0 :: 8 word)\<rparr>)
     (\<lambda>s. getCount H1 s 0) = Some 2 \<and>
   map_option (\<lambda>s. (table_m s ! 2, table_m s ! 2147483649))
     (run H1 no_fp [Increment 0, Increment 1, ResetCount 0]
        \<lparr>width_m = 2147483649, depth_m = 3, saturated = 0,
          table_m = replicate 2147483651 (0 :: 8 word)\<rparr>) = Some (254, 0) \<and>
   (2 :: 8 word) - 2 = 0"
  by (simp only: wrapped_constructed wrapped_two_increments wrapped_resetCount) simp

text \<open>
  C5, as stated, fails where the product is rounded up to an integer. A cell of 3 and a
  decay of \<open>6004799503160661 / 2 ^ 54\<close>, the double nearest to one third: the real
  product is \<open>1 - 2 ^ (- 54)\<close>, halfway between two doubles, and is rounded to 1; the
  cell becomes 1, and the floor of the real product is 0.
\<close>

theorem decay_of_three_by_a_third:
  "CountMinSketchBase 1 1 = Inr \<lparr>width_m = 1, depth_m = 1, saturated = 0, table_m = [0 :: 8 word]\<rparr> \<and>
   increment_all H0 \<lparr>width_m = 1, depth_m = 1, saturated = 0, table_m = [0 :: 8 word]\<rparr> [7, 7, 7]
   = Some \<lparr>width_m = 1, depth_m = 1, saturated = 0, table_m = [3]\<rparr> \<and>
   decayCountsBy (no_fp\<lparr>scale := scale_rounded round_double\<rparr>)
     \<lparr>width_m = 1, depth_m = 1, saturated = 0, table_m = [3 :: 8 word]\<rparr>
     (Finite (6004799503160661 / 18014398509481984))
   = Some \<lparr>width_m = 1, depth_m = 1, saturated = 0, table_m = [1]\<rparr> \<and>
   \<lfloor>3 * (6004799503160661 / 18014398509481984 :: real)\<rfloor> = 0 \<and>
   (0 :: real) \<le> 6004799503160661 / 18014398509481984 \<and>
   (6004799503160661 / 18014398509481984 :: real) \<le> 1"
proof -
  have "(CountMinSketchBase 1 1 :: failure + 8 word sketch)
      = Inr \<lparr>width_m = 1, depth_m = 1, saturated = 0, table_m = [0]\<rparr>"
    by (simp add: CountMinSketchBase_eq)
  moreover have "\<lfloor>3 * (6004799503160661 / 18014398509481984 :: real)\<rfloor> = 0" by simp
  ultimately show ?thesis using three_increments decay_three [of no_fp] by simp
qed

text \<open>
  C5, amended. After \<open>decayCountsBy d\<close> with \<open>0 \<le> d \<le> 1\<close>, on counters of at most 53
  bits (which a double holds exactly), every cell holds the floor of the product of
  doubles, that is of the real product \<open>oldValue * d\<close> rounded to a double; this is the
  floor of the real product or one more, and no cell increases. The dimensions and
  \<open>saturated\<close> are as before.
\<close>

theorem decay_floor_of_double_product:
  fixes s :: "'a::len word sketch"
  assumes "sized s" and "0 \<le> d" and "d \<le> 1" and "LENGTH('a) \<le> 53"
  shows "\<exists>s'. decayCountsBy (fp\<lparr>scale := scale_rounded round_double\<rparr>) s (Finite d) = Some s' \<and>
           width_m s' = width_m s \<and> depth_m s' = depth_m s \<and> saturated s' = saturated s \<and>
           length (table_m s') = length (table_m s) \<and>
           (\<forall>i<length (table_m s).
               int (unat (table_m s' ! i)) = \<lfloor>round_double (real (unat (table_m s ! i)) * d)\<rfloor> \<and>
               table_m s' ! i \<le> table_m s ! i \<and>
               \<lfloor>real (unat (table_m s ! i)) * d\<rfloor> \<le> int (unat (table_m s' ! i)) \<and>
               int (unat (table_m s' ! i)) \<le> \<lfloor>real (unat (table_m s ! i)) * d\<rfloor> + 1)"
  using assms(1-3)
proof (rule decayCountsBy_rounded)
  show "round_double x \<le> round_double y" if "0 \<le> x" and "x \<le> y" for x y
    using that by (rule round_double_mono)
  show "round_double (real n) = real n" if "n < 2 ^ LENGTH('a)" for n
  proof (rule round_double_of_nat)
    have "(2::nat) ^ LENGTH('a) \<le> 2 ^ 53" using assms(4) by (simp only: power_increasing_iff)
    with that show "n < 2 ^ 53" by (rule less_le_trans)
  qed
qed

theorem decay_floor_of_double_product_witness:
  "sized \<lparr>width_m = 1, depth_m = 1, saturated = 0, table_m = [3 :: 8 word]\<rparr> \<and>
   (0 :: real) \<le> 6004799503160661 / 18014398509481984 \<and>
   (6004799503160661 / 18014398509481984 :: real) \<le> 1 \<and> LENGTH(8) \<le> 53 \<and>
   (\<exists>s'. decayCountsBy (no_fp\<lparr>scale := scale_rounded round_double\<rparr>)
            \<lparr>width_m = 1, depth_m = 1, saturated = 0, table_m = [3 :: 8 word]\<rparr>
            (Finite (6004799503160661 / 18014398509481984)) = Some s' \<and>
         table_m s' ! 0 \<le> 3 \<and>
         int (unat (table_m s' ! 0)) \<le> \<lfloor>3 * (6004799503160661 / 18014398509481984 :: real)\<rfloor> + 1)"
proof -
  let ?s = "\<lparr>width_m = 1, depth_m = 1, saturated = 0, table_m = [3 :: 8 word]\<rparr>"
  let ?d = "6004799503160661 / 18014398509481984 :: real"
  have s: "sized ?s" by (simp add: sized_def unat_tableSize)
  have d: "0 \<le> ?d" "?d \<le> 1" by simp_all
  have l: "LENGTH(8) \<le> 53" by simp
  from decay_floor_of_double_product [OF s d l, of no_fp]
  obtain s' where "decayCountsBy (no_fp\<lparr>scale := scale_rounded round_double\<rparr>) ?s (Finite ?d) = Some s'"
    and "\<forall>i<length (table_m ?s).
               int (unat (table_m s' ! i)) = \<lfloor>round_double (real (unat (table_m ?s ! i)) * ?d)\<rfloor> \<and>
               table_m s' ! i \<le> table_m ?s ! i \<and>
               \<lfloor>real (unat (table_m ?s ! i)) * ?d\<rfloor> \<le> int (unat (table_m s' ! i)) \<and>
               int (unat (table_m s' ! i)) \<le> \<lfloor>real (unat (table_m ?s ! i)) * ?d\<rfloor> + 1"
    by blast
  hence "decayCountsBy (no_fp\<lparr>scale := scale_rounded round_double\<rparr>) ?s (Finite ?d) = Some s' \<and>
         table_m s' ! 0 \<le> 3 \<and>
         int (unat (table_m s' ! 0)) \<le> \<lfloor>3 * ?d\<rfloor> + 1"
    by (simp add: round_double_below_one)
  with s d l show ?thesis by blast
qed

text \<open>
  C6 at a NaN. A NaN is outside the interval from 0 to 1, and both comparisons of the
  range check are false for it: \<open>calculateWidth\<close> and \<open>calculateDepth\<close> go on to the
  conversion, and the constructor from accuracy does not raise the error that names the
  parameter. Where the conversions give 4 for an error of 0.5 and 0 for the NaN, the
  constructor called with a probability that is a NaN returns a sketch of depth 1.
\<close>

theorem NaN_passes_the_range_checks:
  "calculateWidth fp NaN maxWidth =
     (case ceil_two_over fp NaN of
        None \<Rightarrow> Inl Undefined
      | Some width \<Rightarrow> Inr (if maxWidth > 0 then min maxWidth width else width)) \<and>
   calculateDepth fp NaN maxDepth =
     (case ceil_abs_log2 fp NaN of
        None \<Rightarrow> Inl Undefined
      | Some depth0 \<Rightarrow> Inr (if maxDepth > 0 then min maxDepth (max 1 depth0) else max 1 depth0)) \<and>
   (CountMinSketchBase_accuracy fp NaN probability maxWidth maxDepth :: failure + 'a::len word sketch)
     \<noteq> Inl (InvalidArgument (Error NaN)) \<and>
   (CountMinSketchBase_accuracy fp error NaN maxWidth maxDepth :: failure + 'a word sketch)
     \<noteq> Inl (InvalidArgument (Probability NaN)) \<and>
   (CountMinSketchBase_accuracy
       (no_fp\<lparr>ceil_two_over := (\<lambda>_. Some 4), ceil_abs_log2 := (\<lambda>_. Some 0)\<rparr>)
       (Finite (1 / 2)) NaN 0 0 :: failure + 'a word sketch)
     = Inr \<lparr>width_m = 4, depth_m = 1, saturated = 0, table_m = [0, 0, 0, 0]\<rparr>"
proof (intro conjI)
  show w: "calculateWidth fp NaN maxWidth =
     (case ceil_two_over fp NaN of
        None \<Rightarrow> Inl Undefined
      | Some width \<Rightarrow> Inr (if maxWidth > 0 then min maxWidth width else width))"
    by (simp add: calculateWidth_def)
  show d: "calculateDepth fp NaN maxDepth =
     (case ceil_abs_log2 fp NaN of
        None \<Rightarrow> Inl Undefined
      | Some depth0 \<Rightarrow> Inr (if maxDepth > 0 then min maxDepth (max 1 depth0) else max 1 depth0))"
    by (simp add: calculateDepth_def Let_def split: option.splits)
  have ctor: "(CountMinSketchBase w' d' :: failure + 'a word sketch) \<noteq> Inl (InvalidArgument (Error x))"
    "(CountMinSketchBase w' d' :: failure + 'a word sketch) \<noteq> Inl (InvalidArgument (Probability x))"
    for w' d' x
    by (simp_all add: CountMinSketchBase_eq)
  have cd: "calculateDepth fp p maxDepth \<noteq> Inl (InvalidArgument (Error x))" for p x
    by (simp add: calculateDepth_def Let_def split: option.splits)
  have cw: "calculateWidth fp e maxWidth \<noteq> Inl (InvalidArgument (Probability x))" for e x
    by (simp add: calculateWidth_def split: option.splits)
  show "(CountMinSketchBase_accuracy fp NaN probability maxWidth maxDepth :: failure + 'a word sketch)
     \<noteq> Inl (InvalidArgument (Error NaN))"
    using ctor(1) cd w
    by (auto simp: CountMinSketchBase_accuracy_def split: sum.splits option.splits)
  show "(CountMinSketchBase_accuracy fp error NaN maxWidth maxDepth :: failure + 'a word sketch)
     \<noteq> Inl (InvalidArgument (Probability NaN))"
    using ctor(2) cw d
    by (auto simp: CountMinSketchBase_accuracy_def split: sum.splits option.splits)
  let ?fp = "no_fp\<lparr>ceil_two_over := (\<lambda>_. Some 4), ceil_abs_log2 := (\<lambda>_. Some 0)\<rparr> :: 'a word fp_ops"
  have cw4: "calculateWidth ?fp (Finite (1 / 2)) 0 = Inr 4"
    by (simp add: calculateWidth_def)
  have cd1: "calculateDepth ?fp NaN 0 = Inr 1"
    by (simp add: calculateDepth_def)
  have "unat (4 * 1 :: u32) = 4" by simp
  moreover have "replicate 4 (0 :: 'a word) = [0, 0, 0, 0]" by (simp add: numeral_eq_Suc)
  ultimately have four: "replicate (unat (4 * 1 :: u32)) (0 :: 'a word) = [0, 0, 0, 0]"
    by (simp only:)
  show "(CountMinSketchBase_accuracy ?fp (Finite (1 / 2)) NaN 0 0 :: failure + 'a word sketch)
     = Inr \<lparr>width_m = 4, depth_m = 1, saturated = 0, table_m = [0, 0, 0, 0]\<rparr>"
    using four by (simp add: CountMinSketchBase_accuracy_def cw4 cd1 CountMinSketchBase_eq)
qed

text \<open>
  C7 where the ceiling exceeds 32 bits. \<open>calculateWidth\<close> converts \<open>ceil(2 / error)\<close> to
  \<open>uint32_t\<close> first and clamps the converted value to \<open>maxWidth\<close> afterwards. For an
  error of \<open>1 / 2 ^ 40\<close>, inside the interval, the ceiling is \<open>2 ^ 41\<close>, which clamped
  to a \<open>maxWidth\<close> of 1000 is 1000: the width returned is the smaller of 1000 and
  whatever the conversion gave, and where the conversion gives 0 the constructor raises
  \<open>std::invalid_argument\<close> for a width of 0. With no cap (\<open>maxWidth = 0\<close>) the width
  returned is never the ceiling, whatever the conversion gives.
\<close>

theorem width_narrowed_before_clamping:
  "calculateWidth fp (Finite (1 / 2 ^ 40)) 1000 =
     (case ceil_two_over fp (Finite (1 / 2 ^ 40)) of
        None \<Rightarrow> Inl Undefined
      | Some width \<Rightarrow> Inr (min 1000 width)) \<and>
   \<lceil>2 / (1 / 2 ^ 40 :: real)\<rceil> = 2 ^ 41 \<and>
   min 1000 \<lceil>2 / (1 / 2 ^ 40 :: real)\<rceil> = 1000 \<and>
   (CountMinSketchBase_accuracy
      (no_fp\<lparr>ceil_two_over := \<lambda>_. Some 0, ceil_abs_log2 := \<lambda>_. Some 1\<rparr>)
      (Finite (1 / 2 ^ 40)) (Finite (1 / 2)) 1000 0 :: failure + 8 word sketch)
     = Inl (InvalidArgument (Width 0)) \<and>
   \<not> (\<exists>fp width. calculateWidth fp (Finite (1 / 2 ^ 40)) 0 = Inr width \<and>
         int (unat width) = \<lceil>2 / (1 / 2 ^ 40 :: real)\<rceil>)"
proof -
  have c: "\<lceil>2 / (1 / 2 ^ 40 :: real)\<rceil> = 2 ^ 41"
  proof -
    have "2 / (1 / 2 ^ 40 :: real) = of_int (2 ^ 41)" by simp
    then show ?thesis by (simp only: ceiling_of_int)
  qed
  have w: "calculateWidth fp (Finite (1 / 2 ^ 40)) 1000 =
     (case ceil_two_over fp (Finite (1 / 2 ^ 40)) of
        None \<Rightarrow> Inl Undefined
      | Some width \<Rightarrow> Inr (min 1000 width))"
    by (simp add: calculateWidth_def split: option.splits)
  have a: "(CountMinSketchBase_accuracy
      (no_fp\<lparr>ceil_two_over := \<lambda>_. Some 0, ceil_abs_log2 := \<lambda>_. Some 1\<rparr>)
      (Finite (1 / 2 ^ 40)) (Finite (1 / 2)) 1000 0 :: failure + 8 word sketch)
     = Inl (InvalidArgument (Width 0))"
    by (simp add: CountMinSketchBase_accuracy_def calculateWidth_def calculateDepth_def
        CountMinSketchBase_eq no_fp_def)
  have m: "min 1000 \<lceil>2 / (1 / 2 ^ 40 :: real)\<rceil> = 1000" unfolding c by simp
  from w c m a width_not_representable show ?thesis by (intro conjI)
qed

text \<open>
  C8 on a sketch whose table size overflows. On the sketch the constructor returns for
  \<open>width = depth = 65536\<close>, whose table has no cell, \<open>reset\<close> runs no iteration and
  returns; \<open>getCount\<close> then accesses a cell outside the table in its first iteration
  and has no result, for any key and any hash functions.
\<close>

theorem getCount_undefined_after_reset:
  "(CountMinSketchBase 65536 65536 :: failure + 'a::len word sketch) =
     Inr \<lparr>width_m = 65536, depth_m = 65536, saturated = 0, table_m = []\<rparr> \<and>
   reset \<lparr>width_m = 65536, depth_m = 65536, saturated = 0, table_m = [] :: 'a word list\<rparr>
     = Some \<lparr>width_m = 65536, depth_m = 65536, saturated = 0, table_m = []\<rparr> \<and>
   getCount H \<lparr>width_m = 65536, depth_m = 65536, saturated = 0, table_m = [] :: 'a word list\<rparr> key
     = None"
  by (simp add: no_table)

text \<open>
  C9 on a sketch whose table size overflows. On the sketch of \<open>width = 2147483649\<close> and
  \<open>depth = 3\<close>, of 8-bit cells, \<open>getIndex\<close> gives the same cell 2 for rows 0 and 2 of
  key 0 under the hash functions \<open>H1\<close>: the rows are not disjoint. After \<open>increment 0\<close>
  and \<open>increment 1\<close> the cell holds 2; \<open>resetCount 0\<close>, with every access inside the
  table, wraps it below zero to 254.
\<close>

theorem resetCount_wraps_shared_cell:
  "getIndex H1 \<lparr>width_m = 2147483649, depth_m = 3, saturated = 0,
                table_m = replicate 2147483651 (0 :: 8 word)\<rparr> 0 0 = Some 2 \<and>
   getIndex H1 \<lparr>width_m = 2147483649, depth_m = 3, saturated = 0,
                table_m = replicate 2147483651 (0 :: 8 word)\<rparr> 2 0 = Some 2 \<and>
   map_option (\<lambda>s. unat (table_m s ! 2))
     (run H1 no_fp [Increment 0, Increment 1]
        \<lparr>width_m = 2147483649, depth_m = 3, saturated = 0,
          table_m = replicate 2147483651 (0 :: 8 word)\<rparr>) = Some 2 \<and>
   map_option (\<lambda>s. unat (table_m s ! 2))
     (run H1 no_fp [Increment 0, Increment 1, ResetCount 0]
        \<lparr>width_m = 2147483649, depth_m = 3, saturated = 0,
          table_m = replicate 2147483651 (0 :: 8 word)\<rparr>) = Some 254"
proof -
  let ?s = "\<lparr>width_m = 2147483649, depth_m = 3, saturated = 0,
          table_m = replicate 2147483651 (0 :: 8 word)\<rparr>"
  have "map_option (\<lambda>s. unat (table_m s ! 2)) r = map_option (\<lambda>p. unat (fst p))
          (map_option (\<lambda>s. (table_m s ! 2, table_m s ! 2147483649)) r)"
    for r :: "8 word sketch option"
    by (simp add: option.map_comp comp_def)
  then show ?thesis
    by (simp only: wrapped_two_increments wrapped_resetCount getIndex_H1) simp
qed

text \<open>
  C10. A default-constructed sketch and a sketch that has been moved from have width 0,
  depth 0 and no table. On them \<open>increment\<close>, \<open>resetCount\<close>, \<open>decayCountsBy\<close> and \<open>reset\<close>
  run no iteration, touch no cell and leave the object as it is; the loop of \<open>getCount\<close>
  leaves \<open>count\<close> at the maximum and the guard on \<open>depth_\<close> turns the result into 0, so
  that guard is reached through the public interface.
\<close>

theorem default_and_moved_from_inert:
  fixes other :: "'a::len word sketch"
  shows "width_m (CountMinSketchBase_default :: 'a word sketch) = 0 \<and>
         depth_m (CountMinSketchBase_default :: 'a word sketch) = 0 \<and>
         table_m (CountMinSketchBase_default :: 'a word sketch) = [] \<and>
         width_m (snd (CountMinSketchBase_move other)) = 0 \<and>
         depth_m (snd (CountMinSketchBase_move other)) = 0 \<and>
         table_m (snd (CountMinSketchBase_move other)) = [] \<and>
         (\<forall>s. s = CountMinSketchBase_default \<or> s = snd (CountMinSketchBase_move other) \<longrightarrow>
            (\<forall>key. increment H s key = Some s \<and> resetCount H s key = Some s \<and>
                   for_loop 0 (unat (depth_m s)) (getCount_row H s key) getMaxCount
                     = Some getMaxCount \<and>
                   getCount H s key = Some 0) \<and>
            (\<forall>decay. decayCountsBy fp s decay = Some s) \<and>
            reset s = Some s)"
proof -
  have d: "depth_m (CountMinSketchBase_default :: 'a word sketch) = 0"
    "depth_m (snd (CountMinSketchBase_move other)) = 0"
    by (simp_all add: CountMinSketchBase_default_def CountMinSketchBase_move_def)
  have "(\<forall>key. increment H s key = Some s \<and> resetCount H s key = Some s \<and>
                   for_loop 0 (unat (depth_m s)) (getCount_row H s key) getMaxCount
                     = Some getMaxCount \<and>
                   getCount H s key = Some 0) \<and>
            (\<forall>decay. decayCountsBy fp s decay = Some s) \<and>
            reset s = Some s"
    if "s = CountMinSketchBase_default \<or> s = snd (CountMinSketchBase_move other)" for s
  proof -
    from that d have "depth_m s = 0" by auto
    then show ?thesis using no_rows [of s] by blast
  qed
  then show ?thesis
    by (simp add: CountMinSketchBase_default_def CountMinSketchBase_move_def)
qed

theorem default_and_moved_from_inert_witness:
  "increment H0 (CountMinSketchBase_default :: 8 word sketch) 5 = Some CountMinSketchBase_default \<and>
   getCount H0 (CountMinSketchBase_default :: 8 word sketch) 5 = Some 0 \<and>
   decayCountsBy no_fp (CountMinSketchBase_default :: 8 word sketch) (Finite (1 / 2))
     = Some CountMinSketchBase_default \<and>
   getCount H0 (snd (CountMinSketchBase_move
      \<lparr>width_m = 2, depth_m = 2, saturated = 0, table_m = [1, 2, 2, 1 :: 8 word]\<rparr>)) 5 = Some 0"
  using default_and_moved_from_inert
    [of "\<lparr>width_m = 2, depth_m = 2, saturated = 0, table_m = [1, 2, 2, 1 :: 8 word]\<rparr>" H0 no_fp]
  by blast

section \<open>Further properties\<close>

text \<open>
  The table has \<open>tableSize\<close> cells in every sketch a constructor returns (and in what
  the move constructor leaves of a sketch that had), and every call keeps it so.
\<close>

theorem sized_invariant:
  fixes s other :: "'a::len word sketch"
  shows "(\<forall>width depth. CountMinSketchBase width depth = Inr s \<longrightarrow> sized s) \<and>
         sized (CountMinSketchBase_default :: 'a word sketch) \<and>
         (sized other \<longrightarrow> sized (fst (CountMinSketchBase_move other)) \<and>
                          sized (snd (CountMinSketchBase_move other))) \<and>
         (\<forall>calls s'. sized s \<longrightarrow> run H fp calls s = Some s' \<longrightarrow> sized s')"
proof (intro conjI allI impI)
  fix width depth
  assume "CountMinSketchBase width depth = Inr s"
  then show "sized s"
    by (auto simp: CountMinSketchBase_eq sized_def unat_tableSize split: if_splits)
next
  show "sized (CountMinSketchBase_default :: 'a word sketch)"
    by (simp add: CountMinSketchBase_default_def sized_def unat_tableSize)
next
  assume "sized other"
  then show "sized (fst (CountMinSketchBase_move other))"
    by (simp add: CountMinSketchBase_move_def sized_def unat_tableSize)
next
  show "sized (snd (CountMinSketchBase_move other))"
    by (simp add: CountMinSketchBase_move_def sized_def unat_tableSize)
next
  fix calls s'
  assume "sized s" and "run H fp calls s = Some s'"
  then show "sized s'"
  proof (induction calls arbitrary: s)
    case Nil
    then show ?case by simp
  next
    case (Cons call calls)
    from Cons.prems(2) obtain s1 where "do_call H fp call s = Some s1" "run H fp calls s1 = Some s'"
      by (auto split: option.splits)
    then show ?case using Cons.IH [of s1] do_call_sized Cons.prems(1) by blast
  qed
qed

theorem sized_invariant_witness:
  "sized \<lparr>width_m = 2, depth_m = 2, saturated = 0, table_m = [0, 0, 0, 0 :: 8 word]\<rparr>"
  using sized_invariant [of "\<lparr>width_m = 2, depth_m = 2, saturated = 0, table_m = [0, 0, 0, 0 :: 8 word]\<rparr>"]
    example_constructed
  by blast

text \<open>
  The constructor from dimensions raises \<open>std::invalid_argument\<close> for a zero width
  (naming the width and its value), else for a zero depth (naming the depth and its
  value), and otherwise returns a sketch of these dimensions with \<open>saturated\<close> 0 and a
  table of zero cells, as many as the 32-bit product \<open>width_ * depth_\<close> says.
\<close>

theorem dimension_constructor:
  "(CountMinSketchBase width depth :: failure + 'a::len word sketch) =
     (if width = 0 then Inl (InvalidArgument (Width width))
      else if depth = 0 then Inl (InvalidArgument (Depth depth))
      else Inr \<lparr>width_m = width, depth_m = depth, saturated = 0,
                 table_m = replicate (unat (width * depth)) 0\<rparr>)"
  by (rule CountMinSketchBase_eq)

text \<open>
  On a sketch whose table has \<open>width * depth\<close> cells, \<open>increment\<close>, \<open>getCount\<close>,
  \<open>resetCount\<close> and \<open>reset\<close> always have a result, and they and \<open>decayCountsBy\<close> leave
  such a sketch.
\<close>

theorem operations_keep_allocated:
  fixes s :: "'a::len word sketch"
  assumes "allocated s"
  shows "(\<exists>s'. increment H s key = Some s' \<and> allocated s') \<and>
         (\<exists>c. getCount H s key = Some c) \<and>
         (\<exists>s'. resetCount H s key = Some s' \<and> allocated s') \<and>
         (\<exists>s'. reset s = Some s' \<and> allocated s') \<and>
         (\<forall>s'. decayCountsBy fp s decay = Some s' \<longrightarrow> allocated s')"
proof -
  have "allocated s'" if "decayCountsBy fp s decay = Some s'" for s'
    using decayCountsBy_frame [OF that] assms by (simp add: allocated_def)
  then show ?thesis
    using increment_allocated [OF assms] getCount_allocated [OF assms]
      resetCount_keeps_allocated [OF assms] reset_allocated [OF assms]
    by blast
qed

theorem operations_keep_allocated_witness:
  "\<exists>s'. increment H0 \<lparr>width_m = 2, depth_m = 2, saturated = 0, table_m = [1, 2, 2, 1 :: 8 word]\<rparr> 7
          = Some s' \<and> allocated s'"
  using operations_keep_allocated [OF example_allocated, of H0 7] by blast

text \<open>
  Monotonicity. A call of \<open>increment\<close>, for any key, never lowers \<open>getCount key\<close>.
\<close>

theorem getCount_monotone:
  fixes s :: "'a::len word sketch"
  assumes "increment H s other = Some s'"
    and "getCount H s key = Some c" and "getCount H s' key = Some c'"
  shows "c \<le> c'"
proof (cases "depth_m s = 0")
  case True
  then have "depth_m s' = 0" using increment_Some(2) [OF assms(1)] by simp
  with True assms(2,3) show ?thesis by (simp add: getCount_depth0)
next
  case False
  note F = increment_Some [OF assms(1)]
  from False F(2) have d': "depth_m s' \<noteq> 0" by simp
  from getCount_Some(2) [OF assms(3) d'] F(2,3) obtain r i where r: "r < unat (depth_m s)"
    and gi': "getIndex H s' (of_nat r) key = Some i" and il: "unat i < length (table_m s)"
    and c': "c' = table_m s' ! unat i" by auto
  have gi: "getIndex H s (of_nat r) key = Some i"
    using gi' getIndex_width_cong [OF F(1)] by simp
  from getCount_Some(1) [OF assms(2) False] r gi have "c \<le> table_m s ! unat i" by auto
  also have "\<dots> \<le> table_m s' ! unat i" using F(4) il by simp
  finally show ?thesis using c' by simp
qed

theorem getCount_monotone_witness:
  "increment H0 \<lparr>width_m = 2, depth_m = 2, saturated = 0, table_m = [1, 2, 2, 1 :: 8 word]\<rparr> 1
     = Some \<lparr>width_m = 2, depth_m = 2, saturated = 0, table_m = [1, 3, 3, 1]\<rparr> \<and>
   (2 :: 8 word) \<le> 3"
  using getCount_monotone [OF example_increment_once(1) example_getCount example_increment_once(2)]
    example_increment_once(1)
  by simp

text \<open>
  Immediately after \<open>resetCount key\<close>, \<open>getCount key\<close> is 0, whether or not other
  keys share cells with \<open>key\<close>: the smallest of its cells has become 0.
\<close>

theorem getCount_zero_after_resetCount:
  fixes s :: "'a::len word sketch"
  assumes "allocated s"
  shows "\<exists>s'. resetCount H s key = Some s' \<and> getCount H s' key = Some 0"
proof -
  from resetCount_allocated [OF assms, of H key] obtain c s' where
    c: "getCount H s key = Some c" and s': "resetCount H s key = Some s'"
    and fr: "width_m s' = width_m s" "depth_m s' = depth_m s"
      "length (table_m s') = length (table_m s)"
    and cells: "\<forall>i<length (table_m s). table_m s' ! i =
              (if \<exists>r<unat (depth_m s). i = cell_index H s r key
               then table_m s ! i - c else table_m s ! i)"
    by blast
  from assms fr have a': "allocated s'" by (simp add: allocated_def)
  from assms have d: "depth_m s \<noteq> 0" by (simp add: allocated_def)
  from getCount_allocated [OF a'] obtain c' where c': "getCount H s' key = Some c'" by blast
  from getCount_Some(2) [OF c d] obtain r i where r: "r < unat (depth_m s)"
    and gi: "getIndex H s (of_nat r) key = Some i" and il: "unat i < length (table_m s)"
    and ci: "c = table_m s ! unat i" by blast
  from getIndex_allocated(1) [OF assms r, of H key] gi have k: "unat i = cell_index H s r key"
    by auto
  from cells il have "table_m s' ! unat i =
      (if \<exists>r'<unat (depth_m s). unat i = cell_index H s r' key
       then table_m s ! unat i - c else table_m s ! unat i)" by blast
  moreover have "\<exists>r'<unat (depth_m s). unat i = cell_index H s r' key" using r k by blast
  ultimately have z: "table_m s' ! unat i = 0" using ci by simp
  have gi': "getIndex H s' (of_nat r) key = Some i"
    using gi getIndex_width_cong [OF fr(1)] by simp
  from d fr have d': "depth_m s' \<noteq> 0" by simp
  from getCount_Some(1) [OF c' d'] r fr gi' have "c' \<le> table_m s' ! unat i" by auto
  with z have "c' = 0" by simp
  with s' c' show ?thesis by blast
qed

theorem getCount_zero_after_resetCount_witness:
  "\<exists>s'. resetCount H0 \<lparr>width_m = 2, depth_m = 2, saturated = 0, table_m = [1, 2, 2, 1 :: 8 word]\<rparr> 1
          = Some s' \<and> getCount H0 s' 1 = Some 0"
  using getCount_zero_after_resetCount [OF example_allocated, of H0 1] .

text \<open>
  \<open>decayCountsBy decay\<close> replaces every cell \<open>c\<close> of the table by
  \<open>narrow_cast<UINT>(c * decay)\<close>, provided that conversion has a result for every cell,
  and leaves the dimensions and \<open>saturated\<close> as they are.
\<close>

theorem decayCountsBy_every_cell:
  fixes s :: "'a::len word sketch"
  assumes "sized s" and "\<forall>i<length (table_m s). scale fp (table_m s ! i) decay \<noteq> None"
  shows "\<exists>s'. decayCountsBy fp s decay = Some s' \<and>
           width_m s' = width_m s \<and> depth_m s' = depth_m s \<and> saturated s' = saturated s \<and>
           length (table_m s') = length (table_m s) \<and>
           (\<forall>i<length (table_m s). scale fp (table_m s ! i) decay = Some (table_m s' ! i))"
  using assms by (rule decayCountsBy_cells)

theorem decayCountsBy_every_cell_witness:
  "\<exists>s'. decayCountsBy (no_fp\<lparr>scale := \<lambda>c d. Some (drop_bit 1 c)\<rparr>)
            \<lparr>width_m = 2, depth_m = 2, saturated = 0, table_m = [1, 2, 2, 1 :: 8 word]\<rparr>
            (Finite (1 / 2)) = Some s' \<and>
         Some (drop_bit 1 (2 :: 8 word)) = Some (table_m s' ! 1)"
proof -
  let ?s = "\<lparr>width_m = 2, depth_m = 2, saturated = 0, table_m = [1, 2, 2, 1 :: 8 word]\<rparr>"
  let ?fp = "no_fp\<lparr>scale := \<lambda>(c :: 8 word) (d :: double). Some (drop_bit 1 c)\<rparr>"
  have "sized ?s" using example_allocated by (rule allocated_sized)
  moreover have "\<forall>i<length (table_m ?s). scale ?fp (table_m ?s ! i) (Finite (1 / 2)) \<noteq> None"
    by simp
  ultimately obtain s' where "decayCountsBy ?fp ?s (Finite (1 / 2)) = Some s'"
    and "\<forall>i<length (table_m ?s). scale ?fp (table_m ?s ! i) (Finite (1 / 2)) = Some (table_m s' ! i)"
    using decayCountsBy_every_cell [of ?s ?fp "Finite (1 / 2)"] by blast
  then show ?thesis by auto
qed

text \<open>
  For an accuracy parameter that is not a NaN, \<open>calculateWidth\<close> and \<open>calculateDepth\<close>
  raise \<open>std::invalid_argument\<close> exactly when the parameter is outside the open interval
  from 0 to 1, and the error names that parameter and its value.
\<close>

theorem range_checks:
  assumes "error \<noteq> NaN" and "probability \<noteq> NaN"
  shows "(calculateWidth fp error maxWidth = Inl (InvalidArgument (Error error)))
            = (\<not> in_open_unit error) \<and>
         (calculateDepth fp probability maxDepth = Inl (InvalidArgument (Probability probability)))
            = (\<not> in_open_unit probability) \<and>
         (\<forall>a. calculateWidth fp error maxWidth = Inl (InvalidArgument a) \<longrightarrow> a = Error error) \<and>
         (\<forall>a. calculateDepth fp probability maxDepth = Inl (InvalidArgument a) \<longrightarrow>
               a = Probability probability)"
proof -
  have w: "(calculateWidth fp error maxWidth = Inl (InvalidArgument a)) =
             ((double_le error 0 \<or> double_ge error 1) \<and> a = Error error)" for a
    by (cases "ceil_two_over fp error") (auto simp: calculateWidth_def)
  have d: "(calculateDepth fp probability maxDepth = Inl (InvalidArgument a)) =
             ((double_le probability 0 \<or> double_ge probability 1) \<and> a = Probability probability)"
    for a
    by (cases "ceil_abs_log2 fp probability") (auto simp: calculateDepth_def Let_def)
  show ?thesis
    unfolding w d using range_check [OF assms(1)] range_check [OF assms(2)] by simp
qed

theorem range_checks_witness:
  "calculateWidth (no_fp :: 8 word fp_ops) (Finite (3 / 2)) 0
     = Inl (InvalidArgument (Error (Finite (3 / 2)))) \<and>
   calculateDepth (no_fp :: 8 word fp_ops) (Finite 0) 0
     = Inl (InvalidArgument (Probability (Finite 0)))"
proof -
  have out: "\<not> in_open_unit (Finite (3 / 2))" "\<not> in_open_unit (Finite 0)" by simp_all
  have ord: "Finite (3 / 2) \<noteq> NaN" "Finite 0 \<noteq> NaN" by simp_all
  note R = range_checks [OF ord, of "no_fp :: 8 word fp_ops" 0 0]
  from R have "(calculateWidth (no_fp :: 8 word fp_ops) (Finite (3 / 2)) 0
       = Inl (InvalidArgument (Error (Finite (3 / 2))))) = (\<not> in_open_unit (Finite (3 / 2)))"
    by (rule conjunct1)
  moreover from R have "(calculateDepth (no_fp :: 8 word fp_ops) (Finite 0) 0
       = Inl (InvalidArgument (Probability (Finite 0)))) = (\<not> in_open_unit (Finite 0))"
    by (rule conjunct2 [THEN conjunct1])
  ultimately show ?thesis using out by (simp only: simp_thms)
qed

text \<open>
  When \<open>calculateWidth\<close> returns, the width is the converted value clamped to
  \<open>maxWidth\<close> if that is positive; when \<open>calculateDepth\<close> returns, the depth is the
  converted value raised to at least 1 and then clamped to \<open>maxDepth\<close> if that is
  positive, and it is never 0. Either returns only for a parameter inside the interval
  or a NaN.
\<close>

theorem resolved_dimensions:
  "(\<forall>width. calculateWidth fp error maxWidth = Inr width \<longrightarrow>
      (in_open_unit error \<or> error = NaN) \<and>
      (\<exists>w. ceil_two_over fp error = Some w \<and>
           width = (if maxWidth > 0 then min maxWidth w else w))) \<and>
   (\<forall>depth. calculateDepth fp probability maxDepth = Inr depth \<longrightarrow>
      (in_open_unit probability \<or> probability = NaN) \<and> depth \<noteq> 0 \<and>
      (\<exists>d. ceil_abs_log2 fp probability = Some d \<and>
           depth = (if maxDepth > 0 then min maxDepth (max 1 d) else max 1 d)))"
proof -
  have u: "\<not> (double_le x 0 \<or> double_ge x 1) \<Longrightarrow> in_open_unit x \<or> x = NaN" for x
    by (cases x) auto
  have w: "(in_open_unit error \<or> error = NaN) \<and>
      (\<exists>w. ceil_two_over fp error = Some w \<and>
           width = (if maxWidth > 0 then min maxWidth w else w))"
    if "calculateWidth fp error maxWidth = Inr width" for width
  proof -
    from that have ok: "\<not> (double_le error 0 \<or> double_ge error 1)"
      by (auto simp: calculateWidth_def split: if_splits)
    with that obtain w where "ceil_two_over fp error = Some w"
      "width = (if maxWidth > 0 then min maxWidth w else w)"
      by (cases "ceil_two_over fp error") (auto simp: calculateWidth_def)
    with u [OF ok] show ?thesis by blast
  qed
  have d: "(in_open_unit probability \<or> probability = NaN) \<and> depth \<noteq> 0 \<and>
      (\<exists>d. ceil_abs_log2 fp probability = Some d \<and>
           depth = (if maxDepth > 0 then min maxDepth (max 1 d) else max 1 d))"
    if "calculateDepth fp probability maxDepth = Inr depth" for depth
  proof -
    from that have ok: "\<not> (double_le probability 0 \<or> double_ge probability 1)"
      by (auto simp: calculateDepth_def split: if_splits)
    with that obtain d where d: "ceil_abs_log2 fp probability = Some d"
      "depth = (if maxDepth > 0 then min maxDepth (max 1 d) else max 1 d)"
      by (cases "ceil_abs_log2 fp probability") (auto simp: calculateDepth_def Let_def)
    have one: "max 1 d \<noteq> 0"
    proof
      assume "max 1 d = 0"
      then have "(1 :: u32) \<le> 0" using max.cobounded1 [of 1 d] by simp
      then show False by simp
    qed
    have "min maxDepth (max 1 d) \<noteq> 0" if "maxDepth > 0"
    proof -
      from that have "maxDepth \<noteq> 0" by (simp add: word_gt_0)
      then show ?thesis using one by (simp add: min_def)
    qed
    with one have "depth \<noteq> 0" using d(2) by simp
    with d u [OF ok] show ?thesis by blast
  qed
  show ?thesis using w d by blast
qed

theorem resolved_dimensions_witness:
  "calculateDepth (no_fp\<lparr>ceil_abs_log2 := \<lambda>_. Some 0\<rparr>) (Finite (1 / 2)) 0 = Inr 1"
proof -
  have "calculateDepth (no_fp\<lparr>ceil_abs_log2 := \<lambda>_. Some 0\<rparr>) (Finite (1 / 2)) 0 = Inr 1"
    by (simp add: calculateDepth_def no_fp_def)
  moreover note resolved_dimensions [of "no_fp\<lparr>ceil_abs_log2 := \<lambda>_. Some 0\<rparr>" NaN 0 "Finite (1 / 2)" 0]
  ultimately show ?thesis by blast
qed

text \<open>
  Never-undercount where the table size does not overflow. From a sketch the
  constructor returns, after any finite sequence of \<open>increment\<close> calls,
  \<open>getCount key\<close> is at least the number of \<open>increment key\<close> calls of the sequence,
  provided no cell indexed by \<open>key\<close> holds the maximum of the counter type and the calls
  have a result; they have one whenever the product of the dimensions fits 32 bits.
\<close>

theorem never_undercount:
  fixes s0 :: "'a::len word sketch"
  assumes "CountMinSketchBase width depth = Inr s0"
  shows "(unat width * unat depth < 2 ^ 32 \<longrightarrow>
            (\<exists>s c. increment_all H s0 keys = Some s \<and> getCount H s key = Some c)) \<and>
         (\<forall>s c. increment_all H s0 keys = Some s \<longrightarrow> getCount H s key = Some c \<longrightarrow>
            (\<forall>r<unat depth. \<forall>i. getIndex H s (of_nat r) key = Some i \<longrightarrow>
                 table_m s ! unat i \<noteq> getMaxCount) \<longrightarrow>
            count_list keys key \<le> unat c)"
proof (intro conjI impI allI)
  assume "unat width * unat depth < 2 ^ 32"
  with assms have "allocated s0" by (rule CountMinSketchBase_allocated)
  then obtain s where s: "increment_all H s0 keys = Some s" "allocated s"
    using increment_all_allocated by blast
  then show "\<exists>s c. increment_all H s0 keys = Some s \<and> getCount H s key = Some c"
    using getCount_allocated by blast
next
  fix s c
  assume run: "increment_all H s0 keys = Some s" and c: "getCount H s key = Some c"
    and unsat: "\<forall>r<unat depth. \<forall>i. getIndex H s (of_nat r) key = Some i \<longrightarrow>
                 table_m s ! unat i \<noteq> getMaxCount"
  from assms have d0: "depth_m s0 = depth" "depth \<noteq> 0"
    by (auto simp: CountMinSketchBase_eq split: if_splits)
  note R = increment_all_count [OF run, of key]
  from R d0 have d: "depth_m s = depth" by simp
  from getCount_Some(2) [OF c] d d0 obtain r i where r: "r < unat depth"
    and gi: "getIndex H s (of_nat r) key = Some i" and il: "unat i < length (table_m s)"
    and ci: "c = table_m s ! unat i" by auto
  have gi0: "getIndex H s0 (of_nat r) key = Some i"
    using gi R getIndex_width_cong [of s s0] by simp
  from unsat r gi have "table_m s ! unat i \<noteq> getMaxCount" by simp
  with R r gi0 il d0 have "unat (table_m s0 ! unat i) + count_list keys key \<le> unat (table_m s ! unat i)"
    by auto
  then show "count_list keys key \<le> unat c" using ci by simp
qed

theorem never_undercount_witness:
  "unat (2 :: u32) * unat (2 :: u32) < 2 ^ 32 \<and>
   increment_all H0 \<lparr>width_m = 2, depth_m = 2, saturated = 0, table_m = [0, 0, 0, 0 :: 8 word]\<rparr> [1, 2, 1]
     = Some \<lparr>width_m = 2, depth_m = 2, saturated = 0, table_m = [1, 2, 2, 1]\<rparr> \<and>
   getCount H0 \<lparr>width_m = 2, depth_m = 2, saturated = 0, table_m = [1, 2, 2, 1 :: 8 word]\<rparr> 1 = Some 2 \<and>
   count_list [1, 2, 1 :: u64] 1 \<le> unat (2 :: 8 word)"
proof -
  let ?s = "\<lparr>width_m = 2, depth_m = 2, saturated = 0, table_m = [1, 2, 2, 1 :: 8 word]\<rparr>"
  have unsat: "\<forall>r<unat (2 :: u32). \<forall>i. getIndex H0 ?s (of_nat r) 1 = Some i \<longrightarrow>
                 table_m ?s ! unat i \<noteq> getMaxCount"
    using example_getIndex example_unsaturated by (auto simp: less_2_cases_iff)
  from never_undercount [OF example_constructed, of H0 "[1, 2, 1]" 1]
    example_increments example_getCount unsat
  have "count_list [1, 2, 1 :: u64] 1 \<le> unat (2 :: 8 word)" by blast
  then show ?thesis using example_increments example_getCount by simp
qed

text \<open>
  Whenever \<open>getCount key\<close> returns, its result is below the cell \<open>getIndex\<close> gives for
  each row and is the cell of one of them, and it is 0 when there is no row. On a sketch
  whose table has \<open>width * depth\<close> cells the index of a row is
  \<open>row * width + (combineHashes (hashInt row) key mod width)\<close>, inside the table, and the
  method returns the minimum over the rows. The method is \<open>const\<close>: it returns the count
  and nothing else.
\<close>

theorem getCount_minimum:
  fixes s :: "'a::len word sketch"
  shows "(depth_m s = 0 \<longrightarrow> getCount H s key = Some 0) \<and>
         (\<forall>c. depth_m s \<noteq> 0 \<longrightarrow> getCount H s key = Some c \<longrightarrow>
            (\<forall>r<unat (depth_m s). \<exists>i. getIndex H s (of_nat r) key = Some i \<and>
                unat i < length (table_m s) \<and> c \<le> table_m s ! unat i) \<and>
            (\<exists>r<unat (depth_m s). \<exists>i. getIndex H s (of_nat r) key = Some i \<and>
                unat i < length (table_m s) \<and> c = table_m s ! unat i)) \<and>
         (allocated s \<longrightarrow>
            (\<forall>r<unat (depth_m s).
                (\<exists>i. getIndex H s (of_nat r) key = Some i \<and> unat i = cell_index H s r key) \<and>
                cell_index H s r key < length (table_m s)) \<and>
            getCount H s key =
              Some (Min ((\<lambda>r. table_m s ! cell_index H s r key) ` {..<unat (depth_m s)})))"
proof -
  let ?n = "unat (depth_m s)"
  let ?f = "\<lambda>r. table_m s ! cell_index H s r key"
  have none: "depth_m s = 0 \<longrightarrow> getCount H s key = Some 0"
    using getCount_depth0 by blast
  have some: "(\<forall>r<?n. \<exists>i. getIndex H s (of_nat r) key = Some i \<and>
                unat i < length (table_m s) \<and> c \<le> table_m s ! unat i) \<and>
            (\<exists>r<?n. \<exists>i. getIndex H s (of_nat r) key = Some i \<and>
                unat i < length (table_m s) \<and> c = table_m s ! unat i)"
    if "depth_m s \<noteq> 0" "getCount H s key = Some c" for c
    using getCount_Some [OF that(2,1)] by blast
  have alloc: "(\<forall>r<?n.
                (\<exists>i. getIndex H s (of_nat r) key = Some i \<and> unat i = cell_index H s r key) \<and>
                cell_index H s r key < length (table_m s)) \<and>
            getCount H s key = Some (Min (?f ` {..<?n}))"
    if a: "allocated s"
  proof
    show "\<forall>r<?n.
          (\<exists>i. getIndex H s (of_nat r) key = Some i \<and> unat i = cell_index H s r key) \<and>
          cell_index H s r key < length (table_m s)"
      using getIndex_allocated [OF a] by blast
    from a have d: "depth_m s \<noteq> 0" by (simp add: allocated_def)
    from getCount_allocated [OF a] obtain c where c: "getCount H s key = Some c" by blast
    have idx: "unat i = cell_index H s r key"
      if "r < ?n" "getIndex H s (of_nat r) key = Some i" for r i
      using getIndex_allocated(1) [OF a that(1), of H key] that(2) by auto
    have low: "c \<le> ?f r" if "r < ?n" for r
      using getCount_Some(1) [OF c d] that idx by fastforce
    have "\<exists>r<?n. c = ?f r"
      using getCount_Some(2) [OF c d] idx by fastforce
    then have mem: "c \<in> ?f ` {..<?n}" by auto
    have "Min (?f ` {..<?n}) = c"
    proof (rule Min_eqI)
      show "finite (?f ` {..<?n})" by simp
      show "c \<le> y" if "y \<in> ?f ` {..<?n}" for y using that low by auto
      show "c \<in> ?f ` {..<?n}" by (rule mem)
    qed
    then show "getCount H s key = Some (Min (?f ` {..<?n}))" using c by simp
  qed
  show ?thesis using none some alloc by blast
qed

theorem getCount_minimum_witness:
  "allocated \<lparr>width_m = 2, depth_m = 2, saturated = 0, table_m = [1, 2, 2, 1 :: 8 word]\<rparr> \<and>
   getCount H0 \<lparr>width_m = 2, depth_m = 2, saturated = 0, table_m = [1, 2, 2, 1 :: 8 word]\<rparr> 1
     = Some (Min {2}) \<and>
   getCount H0 \<lparr>width_m = 2, depth_m = 0, saturated = 0, table_m = [] :: 8 word list\<rparr> 1 = Some 0"
  using getCount_minimum [of "\<lparr>width_m = 2, depth_m = 2, saturated = 0, table_m = [1, 2, 2, 1 :: 8 word]\<rparr>" H0 1]
    getCount_minimum [of "\<lparr>width_m = 2, depth_m = 0, saturated = 0, table_m = [] :: 8 word list\<rparr>" H0 1]
    example_allocated example_cells
  by simp

text \<open>
  On a sketch whose table has \<open>width * depth\<close> cells, \<open>resetCount key\<close> computes
  \<open>c = getCount key\<close> and then subtracts \<open>c\<close> from the cell of \<open>key\<close> in each of the
  \<open>depth\<close> rows; every other cell of the table, the dimensions and \<open>saturated\<close> are as
  before.
\<close>

theorem resetCount_subtracts:
  fixes s :: "'a::len word sketch"
  assumes "allocated s"
  shows "\<exists>c s'. getCount H s key = Some c \<and> resetCount H s key = Some s' \<and>
           width_m s' = width_m s \<and> depth_m s' = depth_m s \<and> saturated s' = saturated s \<and>
           length (table_m s') = length (table_m s) \<and>
           (\<forall>r<unat (depth_m s).
              (\<exists>i. getIndex H s (of_nat r) key = Some i \<and> unat i = cell_index H s r key) \<and>
              cell_index H s r key < length (table_m s) \<and>
              table_m s' ! cell_index H s r key = table_m s ! cell_index H s r key - c) \<and>
           (\<forall>i<length (table_m s). (\<forall>r<unat (depth_m s). i \<noteq> cell_index H s r key) \<longrightarrow>
              table_m s' ! i = table_m s ! i)"
proof -
  from resetCount_allocated [OF assms, of H key] obtain c s' where
    c: "getCount H s key = Some c" and s': "resetCount H s key = Some s'"
    and fr: "width_m s' = width_m s" "depth_m s' = depth_m s" "saturated s' = saturated s"
      "length (table_m s') = length (table_m s)"
    and cells: "\<forall>i<length (table_m s). table_m s' ! i =
              (if \<exists>r<unat (depth_m s). i = cell_index H s r key
               then table_m s ! i - c else table_m s ! i)"
    by blast
  have hit: "(\<exists>i. getIndex H s (of_nat r) key = Some i \<and> unat i = cell_index H s r key) \<and>
              cell_index H s r key < length (table_m s) \<and>
              table_m s' ! cell_index H s r key = table_m s ! cell_index H s r key - c"
    if r: "r < unat (depth_m s)" for r
  proof -
    note G = getIndex_allocated [OF assms r, of H key]
    from cells G(2) have "table_m s' ! cell_index H s r key =
        (if \<exists>r'<unat (depth_m s). cell_index H s r key = cell_index H s r' key
         then table_m s ! cell_index H s r key - c else table_m s ! cell_index H s r key)"
      by blast
    moreover have "\<exists>r'<unat (depth_m s). cell_index H s r key = cell_index H s r' key"
      using r by blast
    ultimately show ?thesis using G by simp
  qed
  have miss: "table_m s' ! i = table_m s ! i"
    if "i < length (table_m s)" "\<forall>r<unat (depth_m s). i \<noteq> cell_index H s r key" for i
    using cells that by auto
  show ?thesis using c s' fr hit miss by blast
qed

theorem resetCount_subtracts_witness:
  "\<exists>s'. resetCount H0 \<lparr>width_m = 2, depth_m = 2, saturated = 0, table_m = [1, 2, 2, 1 :: 8 word]\<rparr> 1
           = Some s' \<and>
         table_m s' ! 0 = 1 \<and> table_m s' ! 1 = 0 \<and> table_m s' ! 2 = 0 \<and> table_m s' ! 3 = 1"
proof -
  let ?s = "\<lparr>width_m = 2, depth_m = 2, saturated = 0, table_m = [1, 2, 2, 1 :: 8 word]\<rparr>"
  from resetCount_subtracts [OF example_allocated, of H0 1] obtain c s' where
    c: "getCount H0 ?s 1 = Some c" and s': "resetCount H0 ?s 1 = Some s'"
    and hit: "\<forall>r<unat (depth_m ?s). table_m s' ! cell_index H0 ?s r 1
                 = table_m ?s ! cell_index H0 ?s r 1 - c"
    and miss: "\<forall>i<length (table_m ?s). (\<forall>r<unat (depth_m ?s). i \<noteq> cell_index H0 ?s r 1) \<longrightarrow>
              table_m s' ! i = table_m ?s ! i"
    by blast
  from c have c2: "c = 2" using example_getCount by simp
  have rows: "r < unat (depth_m ?s) \<longleftrightarrow> r = 0 \<or> r = 1" for r by auto
  from hit have "table_m s' ! cell_index H0 ?s 0 1 = table_m ?s ! cell_index H0 ?s 0 1 - c"
    "table_m s' ! cell_index H0 ?s 1 1 = table_m ?s ! cell_index H0 ?s 1 1 - c"
    by (simp_all add: rows)
  then have h: "table_m s' ! 1 = 0" "table_m s' ! 2 = 0"
    using example_cell_index c2 by simp_all
  have off: "\<forall>r<unat (depth_m ?s). (0::nat) \<noteq> cell_index H0 ?s r 1"
    "\<forall>r<unat (depth_m ?s). (3::nat) \<noteq> cell_index H0 ?s r 1"
    using example_cell_index by (auto simp: less_2_cases_iff)
  have inside: "0 < length (table_m ?s)" "3 < length (table_m ?s)" by simp_all
  have "table_m s' ! 0 = table_m ?s ! 0"
    using miss inside(1) off(1) by blast
  moreover have "table_m s' ! 3 = table_m ?s ! 3"
    using miss inside(2) off(2) by blast
  ultimately have m: "table_m s' ! 0 = 1" "table_m s' ! 3 = 1" by simp_all
  from s' h m show ?thesis by blast
qed

text \<open>
  Immediately after \<open>reset\<close> every cell of the table is 0, on every sketch whose table
  has the \<open>tableSize\<close> cells that were allocated; \<open>getCount key\<close> is then 0 whenever it
  has a result, and it has one on every sketch whose table has \<open>width * depth\<close> cells
  and on every sketch without rows.
\<close>

theorem zero_after_reset:
  fixes s :: "'a::len word sketch"
  assumes "sized s"
  shows "\<exists>s'. reset s = Some s' \<and> width_m s' = width_m s \<and> depth_m s' = depth_m s \<and>
           length (table_m s') = length (table_m s) \<and>
           (\<forall>i<length (table_m s'). table_m s' ! i = 0) \<and>
           (\<forall>key c. getCount H s' key = Some c \<longrightarrow> c = 0) \<and>
           (allocated s \<or> depth_m s = 0 \<longrightarrow> (\<forall>key. getCount H s' key = Some 0))"
proof -
  let ?s' = "s\<lparr>table_m := replicate (length (table_m s)) (0 :: 'a word)\<rparr>"
  from assms have r: "reset s = Some ?s'"
    using reset_sized [of s] by (simp add: sized_def unat_tableSize)
  have zero: "\<forall>i<length (table_m ?s'). table_m ?s' ! i = 0" by simp
  have any: "c = 0" if c: "getCount H ?s' key = Some c" for key c
  proof (cases "depth_m ?s' = 0")
    case True
    then show ?thesis using c getCount_depth0 [of ?s' H key] by simp
  next
    case False
    from getCount_Some(2) [OF c False] obtain i :: u64 where
      "unat i < length (table_m ?s')" "c = table_m ?s' ! unat i" by blast
    then show ?thesis by simp
  qed
  have def: "getCount H ?s' key = Some 0" if "allocated s \<or> depth_m s = 0" for key
  proof -
    from that have "\<exists>c. getCount H ?s' key = Some c"
    proof
      assume "allocated s"
      then have "allocated ?s'" by (simp add: allocated_def)
      then show ?thesis by (rule getCount_allocated)
    next
      assume "depth_m s = 0"
      then show ?thesis using getCount_depth0 [of ?s' H key] by simp
    qed
    then show ?thesis using any by blast
  qed
  show ?thesis
  proof (intro exI [of _ ?s'] conjI)
    show "reset s = Some ?s'" by (rule r)
    show "\<forall>i<length (table_m ?s'). table_m ?s' ! i = 0" by (rule zero)
    show "\<forall>key c. getCount H ?s' key = Some c \<longrightarrow> c = 0" using any by blast
    show "allocated s \<or> depth_m s = 0 \<longrightarrow> (\<forall>key. getCount H ?s' key = Some 0)"
      using def by blast
  qed simp_all
qed

theorem zero_after_reset_witness:
  "\<exists>s'. reset \<lparr>width_m = 2, depth_m = 2, saturated = 0, table_m = [1, 2, 2, 1 :: 8 word]\<rparr> = Some s' \<and>
         length (table_m s') = 4 \<and> table_m s' ! 1 = 0 \<and> getCount H0 s' 1 = Some 0"
proof -
  let ?s = "\<lparr>width_m = 2, depth_m = 2, saturated = 0, table_m = [1, 2, 2, 1 :: 8 word]\<rparr>"
  have "sized ?s" using example_allocated by (rule allocated_sized)
  from zero_after_reset [OF this, of H0] obtain s' where
    s': "reset ?s = Some s'" and len: "length (table_m s') = length (table_m ?s)"
    and z: "\<forall>i<length (table_m s'). table_m s' ! i = 0"
    and c: "allocated ?s \<or> depth_m ?s = 0 \<longrightarrow> (\<forall>key. getCount H0 s' key = Some 0)"
    by blast
  from len have l4: "length (table_m s') = 4" by simp
  with z have "table_m s' ! 1 = 0" by simp
  moreover from c example_allocated have "getCount H0 s' 1 = Some 0" by blast
  ultimately show ?thesis using s' l4 by blast
qed

text \<open>
  On a sketch whose table has \<open>width * depth\<close> cells, \<open>resetCount key\<close> wraps no cell
  below zero: the rows of \<open>key\<close> are at distinct indices, the amount subtracted is at
  most the value of each of them, the new value of each is the old one minus that amount
  in natural numbers, and no cell of the table grows.
\<close>

theorem resetCount_no_underflow:
  fixes s :: "'a::len word sketch"
  assumes "allocated s"
  shows "\<exists>c s'. getCount H s key = Some c \<and> resetCount H s key = Some s' \<and>
           length (table_m s') = length (table_m s) \<and>
           (\<forall>r<unat (depth_m s). \<forall>r'<unat (depth_m s). r \<noteq> r' \<longrightarrow>
              cell_index H s r key \<noteq> cell_index H s r' key) \<and>
           (\<forall>r<unat (depth_m s).
              unat c \<le> unat (table_m s ! cell_index H s r key) \<and>
              unat (table_m s' ! cell_index H s r key) =
                unat (table_m s ! cell_index H s r key) - unat c) \<and>
           (\<forall>i<length (table_m s). unat (table_m s' ! i) \<le> unat (table_m s ! i))"
proof -
  from resetCount_allocated [OF assms, of H key] obtain c s' where
    c: "getCount H s key = Some c" and s': "resetCount H s key = Some s'"
    and len: "length (table_m s') = length (table_m s)"
    and cells: "\<forall>i<length (table_m s). table_m s' ! i =
              (if \<exists>r<unat (depth_m s). i = cell_index H s r key
               then table_m s ! i - c else table_m s ! i)"
    by blast
  from assms have w: "width_m s \<noteq> 0" and d: "depth_m s \<noteq> 0" by (simp_all add: allocated_def)
  have inj: "\<forall>r<unat (depth_m s). \<forall>r'<unat (depth_m s). r \<noteq> r' \<longrightarrow>
              cell_index H s r key \<noteq> cell_index H s r' key"
    using cell_index_inj [OF w] by blast
  have low: "c \<le> table_m s ! cell_index H s r key" if r: "r < unat (depth_m s)" for r
  proof -
    from getCount_Some(1) [OF c d] r obtain i where
      "getIndex H s (of_nat r) key = Some i" "c \<le> table_m s ! unat i" by blast
    moreover from getIndex_allocated(1) [OF assms r, of H key] obtain i' where
      "getIndex H s (of_nat r) key = Some i'" "unat i' = cell_index H s r key" by blast
    ultimately show ?thesis by simp
  qed
  have sub: "unat c \<le> unat (table_m s ! cell_index H s r key) \<and>
              unat (table_m s' ! cell_index H s r key) =
                unat (table_m s ! cell_index H s r key) - unat c"
    if r: "r < unat (depth_m s)" for r
  proof -
    let ?k = "cell_index H s r key"
    have k: "?k < length (table_m s)" using getIndex_allocated(2) [OF assms r] .
    from cells k have "table_m s' ! ?k =
        (if \<exists>r'<unat (depth_m s). ?k = cell_index H s r' key
         then table_m s ! ?k - c else table_m s ! ?k)" by blast
    moreover have "\<exists>r'<unat (depth_m s). ?k = cell_index H s r' key" using r by blast
    ultimately have "table_m s' ! ?k = table_m s ! ?k - c" by simp
    then show ?thesis using low [OF r] by (simp add: unat_sub word_le_nat_alt)
  qed
  have down: "unat (table_m s' ! i) \<le> unat (table_m s ! i)" if i: "i < length (table_m s)" for i
  proof (cases "\<exists>r<unat (depth_m s). i = cell_index H s r key")
    case True
    then obtain r where r: "r < unat (depth_m s)" "i = cell_index H s r key" by blast
    from sub [OF r(1)] r(2) show ?thesis by simp
  next
    case False
    from cells i have "table_m s' ! i =
        (if \<exists>r<unat (depth_m s). i = cell_index H s r key
         then table_m s ! i - c else table_m s ! i)" by blast
    then have "table_m s' ! i = table_m s ! i" using False by (simp only: if_False)
    then show ?thesis by simp
  qed
  show ?thesis using c s' len inj sub down by blast
qed

theorem resetCount_no_underflow_witness:
  "\<exists>c s'. getCount H0 \<lparr>width_m = 2, depth_m = 2, saturated = 0, table_m = [1, 2, 2, 1 :: 8 word]\<rparr> 1
            = Some c \<and>
          resetCount H0 \<lparr>width_m = 2, depth_m = 2, saturated = 0, table_m = [1, 2, 2, 1 :: 8 word]\<rparr> 1
            = Some s' \<and>
          unat c \<le> unat (2 :: 8 word) \<and> unat (table_m s' ! 1) = unat (2 :: 8 word) - unat c"
proof -
  let ?s = "\<lparr>width_m = 2, depth_m = 2, saturated = 0, table_m = [1, 2, 2, 1 :: 8 word]\<rparr>"
  from resetCount_no_underflow [OF example_allocated, of H0 1] obtain c s' where
    c: "getCount H0 ?s 1 = Some c" and s': "resetCount H0 ?s 1 = Some s'"
    and sub: "\<forall>r<unat (depth_m ?s).
              unat c \<le> unat (table_m ?s ! cell_index H0 ?s r 1) \<and>
              unat (table_m s' ! cell_index H0 ?s r 1) =
                unat (table_m ?s ! cell_index H0 ?s r 1) - unat c"
    by blast
  from sub have "unat c \<le> unat (table_m ?s ! cell_index H0 ?s 0 1) \<and>
              unat (table_m s' ! cell_index H0 ?s 0 1) =
                unat (table_m ?s ! cell_index H0 ?s 0 1) - unat c"
    by simp
  then have "unat c \<le> unat (2 :: 8 word) \<and> unat (table_m s' ! 1) = unat (2 :: 8 word) - unat c"
    using example_cell_index(1) by simp
  with c s' show ?thesis by blast
qed

end
